theory Spec2Isabelle
  imports Complex_Main "HOL-Library.Word" "HOL-Library.Multiset"
begin

unbundle bit_operations_syntax

section \<open>Shared types and constants (packages/shared)\<close>

datatype Suit = spades | hearts | diamonds | clubs

text \<open>The rank literals 'A', 'K', 'Q', 'J', '7', '6', '5', '4', '3'.\<close>

datatype Rank = RA | RK | RQ | RJ | R7 | R6 | R5 | R4 | R3

record Card =
  suit :: Suit
  rank :: Rank

text \<open>\<open>POINTS\<close>: points per rank.\<close>

fun POINTS :: "Rank \<Rightarrow> nat" where
  "POINTS RA = 11"
| "POINTS R7 = 10"
| "POINTS RK = 4"
| "POINTS RJ = 3"
| "POINTS RQ = 2"
| "POINTS R6 = 0"
| "POINTS R5 = 0"
| "POINTS R4 = 0"
| "POINTS R3 = 0"

text \<open>
  \<open>RANK_ORDER\<close>, ranks in strength order, highest first. The shared module exists in two
  revisions. The one in force with the full-hand engine is the revision commented
  "New ranking order according to updated rules: 7 outranks K, Q, J"; the engine's unit
  test "ranks 7 above K, Q and J according to updated rules" and the web client's
  "engine order" table agree with it. The earlier revision of the same table is kept
  below as \<open>RANK_ORDER_initial\<close>, for comparison only.
\<close>

definition RANK_ORDER :: "Rank list" where
  "RANK_ORDER = [RA, R7, RK, RQ, RJ, R6, R5, R4, R3]"

definition RANK_ORDER_initial :: "Rank list" where
  "RANK_ORDER_initial = [RA, RK, RQ, RJ, R7, R6, R5, R4, R3]"

section \<open>Engine (packages/engine)\<close>

subsection \<open>Seeded random numbers\<close>

text \<open>
  A JavaScript string is a sequence of UTF-16 code units; \<open>charCodeAt\<close> reads one.
\<close>

type_synonym jsstring = "16 word list"

text \<open>
  \<open>stringToSeed\<close>: \<open>h ^= str.charCodeAt(i); h = Math.imul(h, 16777619)\<close> on 32-bit
  integers, read as unsigned at the end (\<open>h >>> 0\<close>).
\<close>

definition stringToSeed :: "jsstring \<Rightarrow> int" where
  "stringToSeed str =
     uint (fold (\<lambda>c (h :: 32 word). (h XOR ucast c) * 16777619) str 2166136261)"

text \<open>
  \<open>createRng\<close>: the closure's hidden variable \<open>state\<close> is passed explicitly. One call of
  the generator maps the state to \<open>(a * state + c) % m\<close> and returns \<open>state / m\<close>. All
  numbers involved are integers below \<open>2^53\<close> or such an integer divided by \<open>2^32\<close>, so
  the double-precision arithmetic of the source is exact and is modelled by \<open>int\<close> and
  \<open>rat\<close>. \<open>seed >>> 0\<close> reads an integer as unsigned 32-bit.
\<close>

definition createRng :: "int \<Rightarrow> int" where
  "createRng seed_num = seed_num mod 4294967296"

definition rngNext :: "int \<Rightarrow> rat \<times> int" where
  "rngNext st =
     (let a = 1664525; c = 1013904223; m = 4294967296;
          st' = (a * st + c) mod m
      in (of_int st' / of_int m, st'))"

subsection \<open>Deck factory\<close>

definition freshDeck :: "Card list" where
  "freshDeck =
     concat (map (\<lambda>s. map (\<lambda>r. \<lparr>suit = s, rank = r\<rparr>) [RA, RK, RQ, RJ, R7, R6, R5, R4, R3])
                 [spades, hearts, diamonds, clubs])"

text \<open>\<open>[deck[i], deck[j]] = [deck[j], deck[i]]\<close>\<close>

definition swapAt :: "nat \<Rightarrow> nat \<Rightarrow> 'a list \<Rightarrow> 'a list" where
  "swapAt i j xs = (xs[i := xs ! j])[j := xs ! i]"

text \<open>
  The Fisher-Yates loop \<open>for (let i = deck.length - 1; i > 0; i--)\<close>; the first argument
  is the loop variable \<open>i\<close>.
\<close>

fun fisherYates :: "nat \<Rightarrow> int \<Rightarrow> Card list \<Rightarrow> Card list" where
  "fisherYates 0 st d = d"
| "fisherYates (Suc i) st d =
     (let (x, st') = rngNext st;
          j = nat \<lfloor>x * of_nat (Suc i + 1)\<rfloor>
      in fisherYates i st' (swapAt (Suc i) j d))"

definition createShuffledDeck :: "int \<Rightarrow> Card list" where
  "createShuffledDeck st = fisherYates (length freshDeck - 1) st freshDeck"

subsection \<open>Trick resolver\<close>

definition teamOfPlayer :: "nat \<Rightarrow> nat" where
  "teamOfPlayer p = p mod 2"

text \<open>\<open>Array.prototype.indexOf\<close>: the first index of the element, or \<open>-1\<close>.\<close>

fun indexOf :: "'a list \<Rightarrow> 'a \<Rightarrow> int" where
  "indexOf [] x = - 1"
| "indexOf (y # ys) x =
     (if y = x then 0 else (let i = indexOf ys x in if i < 0 then - 1 else i + 1))"

definition rankStrengthIn :: "Rank list \<Rightarrow> Rank \<Rightarrow> int" where
  "rankStrengthIn order r = (int (length order) - 1) - indexOf order r"

definition cardWeight :: "Card \<Rightarrow> Suit \<Rightarrow> Suit option \<Rightarrow> int" where
  "cardWeight c trmp led =
     (let rankStrength = rankStrengthIn RANK_ORDER (rank c)
      in if suit c = trmp then 200 + rankStrength
         else if led \<noteq> None \<and> Some (suit c) = led then 100 + rankStrength
         else rankStrength)"

text \<open>
  \<open>TrickPlay\<close> is \<open>{ player, card }\<close>; the field \<open>card\<close> is called \<open>played\<close> here, since
  \<open>card\<close> is the cardinality of a set in HOL. Player indices are natural numbers.
\<close>

record TrickPlay =
  player :: nat
  played :: Card

record TrickResult =
  winner :: "nat option"
  points :: nat
  tie :: bool

datatype error = InvalidInput | TurnError | MissingCardError | TypeError

text \<open>
  \<open>resolveTrick\<close>. \<open>Math.max(...weights)\<close> is taken over a non-empty list here. The
  index list pairs each weight with its position, keeps the position where the weight
  is maximal and \<open>-1\<close> elsewhere, and filters the non-negative entries.
\<close>

definition trickPoints :: "TrickPlay list \<Rightarrow> nat" where
  "trickPoints plays = fold (\<lambda>p acc. acc + POINTS (rank (played p))) plays 0"

definition maxIndices :: "int list \<Rightarrow> int list" where
  "maxIndices weights =
     (let maxWeight = fold max (tl weights) (hd weights)
      in filter (\<lambda>i. i \<ge> 0)
           (map (\<lambda>(w, i). if w = maxWeight then int i else - 1)
                (zip weights [0..<length weights])))"

definition resolveTrick :: "TrickPlay list \<Rightarrow> Suit \<Rightarrow> error + TrickResult" where
  "resolveTrick plays trmp =
     (case plays of
        [] \<Rightarrow> Inl InvalidInput
      | p0 # _ \<Rightarrow>
          (let led = suit (played p0);
               weights = map (\<lambda>p. cardWeight (played p) trmp (Some led)) plays;
               indices = maxIndices weights;
               pts = trickPoints plays
           in if length indices > 1
              then Inr \<lparr>winner = None, points = pts, tie = True\<rparr>
              else (case indices of
                      [] \<Rightarrow> Inl TypeError
                    | i # _ \<Rightarrow>
                        Inr \<lparr>winner = Some (player (plays ! nat i)), points = pts,
                             tie = False\<rparr>)))"

text \<open>
  The resolver as the specification words it: a card weighs \<open>200 + rankStrength\<close> if its
  suit is trump, \<open>100 + rankStrength\<close> if its suit is the suit of the first play, else
  \<open>rankStrength\<close>; \<open>attainingMax\<close> lists the positions of the plays whose weight is the
  maximum.
\<close>

definition specWeight :: "Suit \<Rightarrow> Suit \<Rightarrow> Card \<Rightarrow> int" where
  "specWeight trmp led c =
     (if suit c = trmp then 200 + rankStrengthIn RANK_ORDER (rank c)
      else if suit c = led then 100 + rankStrengthIn RANK_ORDER (rank c)
      else rankStrengthIn RANK_ORDER (rank c))"

definition attainingMax :: "TrickPlay list \<Rightarrow> Suit \<Rightarrow> nat list" where
  "attainingMax plays trmp =
     (let ws = map (\<lambda>p. specWeight trmp (suit (played (hd plays))) (played p)) plays
      in filter (\<lambda>i. ws ! i = Max (set ws)) [0..<length plays])"

subsection \<open>Lead policy\<close>

definition nextLead :: "nat \<Rightarrow> nat option \<Rightarrow> nat" where
  "nextLead currentLead w =
     (case w of
        None \<Rightarrow> currentLead
      | Some wp \<Rightarrow>
          (let currentTeam = teamOfPlayer currentLead;
               winnerTeam = teamOfPlayer wp
           in if winnerTeam = currentTeam then currentLead else wp))"

subsection \<open>Punishment queue\<close>

text \<open>
  The private cursor \<open>index\<close> starts at 0 and is only ever assigned a value modulo the
  length of \<open>sequence\<close>, so \<open>sequence[this.index]\<close> always reads inside the array.
\<close>

record PunishmentQueue =
  queue :: "string list"
  index :: nat

definition sequence :: "string list" where
  "sequence = [''10'', ''10'', ''9'', ''9'', ''8'', ''8'', ''2'', ''2'']"

definition newPunishmentQueue :: PunishmentQueue where
  "newPunishmentQueue = \<lparr>queue = [], index = 0\<rparr>"

definition submit :: "PunishmentQueue \<Rightarrow> PunishmentQueue" where
  "submit q =
     (let c = sequence ! index q;
          pushed = queue q @ [c]
      in \<lparr>queue = (if c = ''2'' then [] else pushed),
          index = (index q + 1) mod length sequence\<rparr>)"

text \<open>\<open>submitTimes n q\<close>: the queue after \<open>n\<close> consecutive calls of \<open>submit()\<close>.\<close>

fun submitTimes :: "nat \<Rightarrow> PunishmentQueue \<Rightarrow> PunishmentQueue" where
  "submitTimes 0 q = q"
| "submitTimes (Suc n) q = submitTimes n (submit q)"

subsection \<open>Match state\<close>

text \<open>
  A log entry is \<open>{ player, card, action }\<close>. The field \<open>log\<close> of the state is called
  \<open>log_entries\<close> here, since \<open>log\<close> is the logarithm in HOL.
\<close>

record LogEntry =
  entry_player :: nat
  entry_card :: Card
  action :: string

text \<open>
  \<open>scores\<close> is the two-element tuple \<open>[number, number]\<close>, indexed by team 0 or 1. An
  absent \<open>currentTrick\<close> is \<open>None\<close>.
\<close>

record MatchState =
  seed :: jsstring
  deck :: "Card list"
  trump :: Suit
  leadPlayer :: nat
  hands :: "Card list list"
  scores :: "nat \<times> nat"
  tiePoints :: nat
  punishment :: PunishmentQueue
  log_entries :: "LogEntry list"
  trumpCard :: Card
  currentTrick :: "TrickPlay list option"

text \<open>\<open>state.scores[team] += n\<close> for \<open>team\<close> the result of \<open>teamOfPlayer\<close>.\<close>

definition addScore :: "nat \<Rightarrow> nat \<Rightarrow> nat \<times> nat \<Rightarrow> nat \<times> nat" where
  "addScore team n sc = (if team = 0 then (fst sc + n, snd sc) else (fst sc, snd sc + n))"

definition teamScore :: "nat \<Rightarrow> nat \<times> nat \<Rightarrow> nat" where
  "teamScore team sc = (if team = 0 then fst sc else snd sc)"

subsection \<open>Dealing\<close>

text \<open>
  The nested deal loops \<open>for i < 3, for p < 6: hands[p].push(deck.shift()!)\<close>, run over
  the list of the players \<open>p\<close> in the order the loops visit them. The deck dealt from is
  the shuffled deck of 36 cards (lemma \<open>length_createShuffledDeck\<close>), so \<open>shift\<close> is never
  applied to an empty array here.
\<close>

fun dealCards :: "nat list \<Rightarrow> Card list list \<Rightarrow> Card list \<Rightarrow> Card list list \<times> Card list" where
  "dealCards [] hs d = (hs, d)"
| "dealCards (p # ps) hs d = dealCards ps (hs[p := hs ! p @ [hd d]]) (tl d)"

definition dealOrder :: "nat list" where
  "dealOrder = concat (map (\<lambda>i. [0..<6]) [0..<3])"

definition initMatch :: "jsstring \<Rightarrow> MatchState" where
  "initMatch sd =
     (let rng = createRng (stringToSeed sd);
          deck0 = createShuffledDeck rng;
          (hs, d) = dealCards dealOrder (replicate 6 []) deck0;
          tc = hd d;
          trmp = suit tc;
          d' = tl d @ [tc]
      in \<lparr>seed = sd, deck = d', trump = trmp, leadPlayer = 0, hands = hs,
          scores = (0, 0), tiePoints = 0, punishment = newPunishmentQueue,
          log_entries = [], trumpCard = tc, currentTrick = None\<rparr>)"

subsection \<open>Draw replenishment\<close>

text \<open>
  The inner loop \<open>while (hand.length < 3 && deck.length > 0) hand.push(deck.shift())\<close>,
  on one hand and the pile.
\<close>

fun drawUpTo3 :: "Card list \<Rightarrow> Card list \<Rightarrow> Card list \<times> Card list" where
  "drawUpTo3 hand [] = (hand, [])"
| "drawUpTo3 hand (c # d) =
     (if length hand < 3 then drawUpTo3 (hand @ [c]) d else (hand, c # d))"

text \<open>
  The outer loop over \<open>offset\<close>. Reading \<open>state.hands[player].length\<close> of a missing hand
  throws a TypeError and leaves the draws made so far in place.
\<close>

fun drawLoop ::
  "nat \<Rightarrow> nat list \<Rightarrow> Card list list \<Rightarrow> Card list \<Rightarrow> error option \<times> Card list list \<times> Card list"
where
  "drawLoop w [] hs d = (None, hs, d)"
| "drawLoop w (offset # rest) hs d =
     (let p = (w + offset) mod 6
      in if p < length hs
         then (let (h', d') = drawUpTo3 (hs ! p) d in drawLoop w rest (hs[p := h']) d')
         else (Some TypeError, hs, d))"

definition drawAfterTrick :: "MatchState \<Rightarrow> nat \<Rightarrow> error option \<times> MatchState" where
  "drawAfterTrick s w =
     (let (e, hs, d) = drawLoop w [0..<6] (hands s) (deck s)
      in (e, s\<lparr>hands := hs, deck := d\<rparr>))"

text \<open>
  The draw as the specification words it: the players in the order
  \<open>(winner + offset) mod 6\<close>, the number of cards a hand lacks to hold three, and the
  cards the \<open>k\<close>-th player of the order receives: the next cards of the pile after those
  handed to the players before.
\<close>

definition drawOrder :: "nat \<Rightarrow> nat list" where
  "drawOrder w = map (\<lambda>offset. (w + offset) mod 6) [0..<6]"

definition missing :: "Card list list \<Rightarrow> nat \<Rightarrow> nat" where
  "missing hs p = 3 - length (hs ! p)"

definition drawnBy :: "nat list \<Rightarrow> Card list list \<Rightarrow> Card list \<Rightarrow> nat \<Rightarrow> Card list" where
  "drawnBy order hs d k =
     take (missing hs (order ! k)) (drop (sum_list (map (missing hs) (take k order))) d)"

subsection \<open>Scoring a resolved trick\<close>

text \<open>
  The block that follows \<open>resolveTrick\<close>, word for word the same in \<open>playHand\<close> and in
  \<open>playCard\<close>: tie-points, score, lead and draw. The first component of the result is
  the exception thrown, if any; the second is the state as the call leaves it.
\<close>

definition settleTrick :: "MatchState \<Rightarrow> TrickResult \<Rightarrow> error option \<times> MatchState" where
  "settleTrick s r =
     (if tie r then (None, s\<lparr>tiePoints := tiePoints s + points r\<rparr>)
      else (case winner r of
              None \<Rightarrow> (None, s)
            | Some w \<Rightarrow>
                (let team = teamOfPlayer w;
                     s1 = s\<lparr>scores := addScore team (points r + tiePoints s) (scores s)\<rparr>;
                     s2 = s1\<lparr>tiePoints := 0\<rparr>;
                     s3 = s2\<lparr>leadPlayer := nextLead (leadPlayer s2) (Some w)\<rparr>
                 in if length (deck s3) > 0 then drawAfterTrick s3 w else (None, s3))))"

subsection \<open>Batch play of a hand\<close>

definition playLogEntry :: "nat \<Rightarrow> Card \<Rightarrow> LogEntry" where
  "playLogEntry p c = \<lparr>entry_player = p, entry_card = c, action = ''play''\<rparr>"

text \<open>
  The loop \<open>for (let i = 0; i < 6; i++)\<close> of \<open>playHand\<close> that collects one card from
  each non-empty hand, starting at the lead.
\<close>

fun collectPlays ::
  "nat list \<Rightarrow> nat \<Rightarrow> Card list list \<Rightarrow> TrickPlay list \<Rightarrow> LogEntry list
   \<Rightarrow> error + (Card list list \<times> TrickPlay list \<times> LogEntry list)"
where
  "collectPlays [] ld hs plays lg = Inr (hs, plays, lg)"
| "collectPlays (i # rest) ld hs plays lg =
     (let p = (ld + i) mod 6
      in if \<not> p < length hs then Inl TypeError
         else (case hs ! p of
                 [] \<Rightarrow> collectPlays rest ld hs plays lg
               | c # hand' \<Rightarrow>
                   collectPlays rest ld (hs[p := hand'])
                     (plays @ [\<lparr>player = p, played = c\<rparr>]) (lg @ [playLogEntry p c])))"

text \<open>One iteration of the \<open>while\<close> loop of \<open>playHand\<close>.\<close>

definition playTrick :: "MatchState \<Rightarrow> error + MatchState" where
  "playTrick s =
     (case collectPlays [0..<6] (leadPlayer s) (hands s) [] (log_entries s) of
        Inl e \<Rightarrow> Inl e
      | Inr (hs, plays, lg) \<Rightarrow>
          (let s1 = s\<lparr>hands := hs, log_entries := lg\<rparr>
           in case resolveTrick plays (trump s1) of
                Inl e \<Rightarrow> Inl e
              | Inr r \<Rightarrow>
                  (case settleTrick s1 r of
                     (Some e, s2) \<Rightarrow> Inl e
                   | (None, s2) \<Rightarrow> Inr s2)))"

text \<open>\<open>state.hands.reduce((acc, h) => acc + h.length, 0)\<close>\<close>

definition cardsRemaining :: "MatchState \<Rightarrow> nat" where
  "cardsRemaining s = fold (\<lambda>h acc. acc + length h) (hands s) 0"

text \<open>
  The cards still in the game, as a multiset, and their number: the cards in the hands
  plus the cards in the draw pile.
\<close>

definition cardsOf :: "MatchState \<Rightarrow> Card multiset" where
  "cardsOf s = mset (concat (hands s)) + mset (deck s)"

definition cardsTotal :: "MatchState \<Rightarrow> nat" where
  "cardsTotal s = cardsRemaining s + length (deck s)"

subsection \<open>Interactive play\<close>

text \<open>\<open>Array.prototype.findIndex\<close>: the first index whose element satisfies the test, or \<open>-1\<close>.\<close>

fun findIndex :: "('a \<Rightarrow> bool) \<Rightarrow> 'a list \<Rightarrow> int" where
  "findIndex P [] = - 1"
| "findIndex P (x # xs) =
     (if P x then 0 else (let i = findIndex P xs in if i < 0 then - 1 else i + 1))"

text \<open>\<open>hand.splice(idx, 1)\<close>\<close>

definition splice1 :: "nat \<Rightarrow> 'a list \<Rightarrow> 'a list" where
  "splice1 i xs = take i xs @ drop (Suc i) xs"

definition trickOf :: "MatchState \<Rightarrow> TrickPlay list" where
  "trickOf s = (case currentTrick s of None \<Rightarrow> [] | Some t \<Rightarrow> t)"

definition turnPlayer :: "MatchState \<Rightarrow> nat" where
  "turnPlayer s = (leadPlayer s + length (trickOf s)) mod 6"

text \<open>
  \<open>playCard\<close> mutates the state in place and returns nothing; the model returns the
  exception thrown, if any, and the state as the call leaves it.
\<close>

definition playCard :: "MatchState \<Rightarrow> nat \<Rightarrow> Card \<Rightarrow> error option \<times> MatchState" where
  "playCard s p c =
     (let trick = trickOf s
      in if p \<noteq> turnPlayer s then (Some TurnError, s)
         else if \<not> p < length (hands s) then (Some TypeError, s)
         else
           (let hand = hands s ! p;
                idx = findIndex (\<lambda>x. rank x = rank c \<and> suit x = suit c) hand
            in if idx = - 1 then (Some MissingCardError, s)
               else
                 (let s1 = s\<lparr>hands := (hands s)[p := splice1 (nat idx) hand]\<rparr>;
                      plays = trick @ [\<lparr>player = p, played = c\<rparr>];
                      s2 = s1\<lparr>currentTrick := Some plays\<rparr>;
                      s3 = s2\<lparr>log_entries := log_entries s2 @ [playLogEntry p c]\<rparr>
                  in if length plays = 6
                     then (let s4 = s3\<lparr>currentTrick := Some []\<rparr>
                           in case resolveTrick plays (trump s4) of
                                Inl e \<Rightarrow> (Some e, s4)
                              | Inr r \<Rightarrow> settleTrick s4 r)
                     else (None, s3))))"

subsection \<open>Conservation of cards\<close>

lemma drawUpTo3_eq:
  "drawUpTo3 h d = (h @ take (3 - length h) d, drop (3 - length h) d)"
proof (induction d arbitrary: h)
  case Nil
  show ?case by simp
next
  case (Cons c d)
  show ?case
  proof (cases "length h < 3")
    case True
    then have "3 - length h = Suc (3 - length (h @ [c]))" by simp
    with True Cons [of "h @ [c]"] show ?thesis by simp
  next
    case False
    then show ?thesis by simp
  qed
qed

lemma settleTrick_win:
  "\<not> tie r \<Longrightarrow> winner r = Some w \<Longrightarrow>
   settleTrick s r =
     (let s3 = s\<lparr>scores := addScore (teamOfPlayer w) (points r + tiePoints s) (scores s),
                  tiePoints := 0, leadPlayer := nextLead (leadPlayer s) (Some w)\<rparr>
      in if deck s \<noteq> [] then drawAfterTrick s3 w else (None, s3))"
  by (simp add: settleTrick_def Let_def)

lemma cardsRemaining_sum: "cardsRemaining s = sum_list (map length (hands s))"
proof -
  have "fold (\<lambda>h acc. acc + length h) hs a = a + sum_list (map length hs)" for hs :: "Card list list" and a
    by (induction hs arbitrary: a) auto
  then show ?thesis by (simp add: cardsRemaining_def)
qed

lemma cardsTotal_size: "cardsTotal s = size (cardsOf s)"
  by (simp add: cardsTotal_def cardsOf_def cardsRemaining_sum length_concat)

lemma mset_concat_update:
  "p < length hs \<Longrightarrow> mset (concat (hs[p := h])) + mset (hs ! p) = mset (concat hs) + mset h"
proof (induction hs arbitrary: p)
  case Nil
  then show ?case by simp
next
  case (Cons a hs)
  show ?case
  proof (cases p)
    case 0
    then show ?thesis by simp
  next
    case (Suc q)
    with Cons.prems have "q < length hs" by simp
    from Cons.IH [OF this] Suc show ?thesis by (simp add: ac_simps)
  qed
qed

lemma collectPlays_cards:
  "collectPlays is ld hs plays lg = Inr (hs', plays', lg') \<Longrightarrow>
   mset (concat hs') + mset (map played plays') = mset (concat hs) + mset (map played plays)"
proof (induction "is" arbitrary: hs plays lg)
  case Nil
  then show ?case by simp
next
  case (Cons i rest)
  let ?p = "(ld + i) mod 6"
  from Cons.prems have pl: "?p < length hs" by (auto simp: Let_def split: if_splits)
  show ?case
  proof (cases "hs ! ?p")
    case Nil
    with Cons.prems pl have "collectPlays rest ld hs plays lg = Inr (hs', plays', lg')"
      by (simp add: Let_def)
    from Cons.IH [OF this] show ?thesis .
  next
    case (Cons c hand')
    with Cons.prems pl have
      "collectPlays rest ld (hs[?p := hand']) (plays @ [\<lparr>player = ?p, played = c\<rparr>])
         (lg @ [playLogEntry ?p c]) = Inr (hs', plays', lg')"
      by (simp add: Let_def)
    from Cons.IH [OF this] mset_concat_update [OF pl, of hand'] Cons
    show ?thesis by (simp add: ac_simps)
  qed
qed

lemma drawLoop_cards:
  "drawLoop w os hs d = (e, hs', d') \<Longrightarrow>
   mset (concat hs') + mset d' = mset (concat hs) + mset d"
proof (induction os arbitrary: hs d)
  case Nil
  then show ?case by simp
next
  case (Cons a os)
  let ?p = "(w + a) mod 6"
  show ?case
  proof (cases "?p < length hs")
    case False
    with Cons.prems show ?thesis by (simp add: Let_def)
  next
    case True
    let ?h = "hs ! ?p @ take (3 - length (hs ! ?p)) d"
    let ?d1 = "drop (3 - length (hs ! ?p)) d"
    from Cons.prems True have "drawLoop w os (hs[?p := ?h]) ?d1 = (e, hs', d')"
      by (simp add: Let_def drawUpTo3_eq)
    from Cons.IH [OF this] have
      "mset (concat hs') + mset d' = mset (concat (hs[?p := ?h])) + mset ?d1" .
    moreover have "mset (concat (hs[?p := ?h])) + mset (hs ! ?p) = mset (concat hs) + mset ?h"
      using True by (rule mset_concat_update)
    moreover have "mset (take (3 - length (hs ! ?p)) d) + mset ?d1 = mset d"
      by (simp add: union_code)
    ultimately have "mset (concat hs') + mset d' + mset (hs ! ?p)
        = mset (concat hs) + mset d + mset (hs ! ?p)"
      by (simp add: ac_simps)
    then show ?thesis by simp
  qed
qed

lemma drawAfterTrick_cards: "drawAfterTrick s w = (e, s') \<Longrightarrow> cardsOf s' = cardsOf s"
  by (auto simp: drawAfterTrick_def cardsOf_def Let_def split: prod.splits dest: drawLoop_cards)

lemma settleTrick_cards: "settleTrick s r = (e, s') \<Longrightarrow> cardsOf s' = cardsOf s"
proof -
  assume a: "settleTrick s r = (e, s')"
  have upd: "cardsOf (t\<lparr>scores := x, tiePoints := y, leadPlayer := z\<rparr>) = cardsOf t" for t x y z
    by (simp add: cardsOf_def)
  show ?thesis
  proof (cases "tie r")
    case True
    with a show ?thesis by (auto simp: settleTrick_def cardsOf_def)
  next
    case False
    show ?thesis
    proof (cases "winner r")
      case None
      with a False show ?thesis by (simp add: settleTrick_def)
    next
      case (Some w)
      from a False Some show ?thesis
        by (auto simp: settleTrick_win [OF False Some] Let_def cardsOf_def
            split: if_splits dest!: drawAfterTrick_cards)
    qed
  qed
qed

lemma resolveTrick_Inr_nonempty: "resolveTrick plays trmp = Inr r \<Longrightarrow> plays \<noteq> []"
  by (auto simp: resolveTrick_def)

lemma playTrick_cards:
  assumes "playTrick s = Inr s'"
  shows "\<exists>plays :: TrickPlay list.
           plays \<noteq> [] \<and> cardsOf s' + mset (map played plays) = cardsOf s"
proof -
  from assms obtain hs plays lg r where
    cp: "collectPlays [0..<6] (leadPlayer s) (hands s) [] (log_entries s) = Inr (hs, plays, lg)" and
    rt: "resolveTrick plays (trump s) = Inr r" and
    st: "settleTrick (s\<lparr>hands := hs, log_entries := lg\<rparr>) r = (None, s')"
    by (auto simp: playTrick_def Let_def split: sum.splits prod.splits option.splits)
  from rt have ne: "plays \<noteq> []" by (rule resolveTrick_Inr_nonempty)
  from collectPlays_cards [OF cp] have "mset (concat hs) + mset (map played plays) = mset (concat (hands s))"
    by simp
  moreover from settleTrick_cards [OF st] have "cardsOf s' = mset (concat hs) + mset (deck s)"
    by (simp add: cardsOf_def)
  ultimately have "cardsOf s' + mset (map played plays) = cardsOf s"
    by (simp add: cardsOf_def ac_simps)
  with ne show ?thesis by blast
qed

lemma playTrick_decreases:
  assumes "playTrick s = Inr s'"
  shows "cardsTotal s' < cardsTotal s"
proof -
  from playTrick_cards [OF assms] obtain plays :: "TrickPlay list" where
    ne: "plays \<noteq> []" and eq: "cardsOf s' + mset (map played plays) = cardsOf s" by blast
  from eq have "size (cardsOf s' + mset (map played plays)) = size (cardsOf s)" by simp
  then have "size (cardsOf s') + length plays = size (cardsOf s)" by simp
  moreover from ne have "0 < length plays" by simp
  ultimately show ?thesis unfolding cardsTotal_size by linarith
qed

subsection \<open>The loop of playHand\<close>

text \<open>
  \<open>while (cardsRemaining > 0) { ... }\<close>: an exception thrown inside an iteration ends the
  loop. The recursion terminates because a completed iteration removes at least one card
  from the hands and the pile together (lemma \<open>playTrick_decreases\<close>).
\<close>

function playHand :: "MatchState \<Rightarrow> error + MatchState" where
  "playHand s =
     (if cardsRemaining s > 0
      then (case playTrick s of Inl e \<Rightarrow> Inl e | Inr s' \<Rightarrow> playHand s')
      else Inr s)"
  by pat_completeness auto
termination
  by (relation "measure cardsTotal") (auto simp: playTrick_decreases)

declare playHand.simps [simp del]

text \<open>
  The same loop with a bound on the number of iterations; \<open>None\<close> means that the bound
  was reached with cards still in the hands.
\<close>

fun playHandFuel :: "nat \<Rightarrow> MatchState \<Rightarrow> (error + MatchState) option" where
  "playHandFuel 0 s = (if cardsRemaining s > 0 then None else Some (Inr s))"
| "playHandFuel (Suc n) s =
     (if cardsRemaining s > 0
      then (case playTrick s of Inl e \<Rightarrow> Some (Inl e) | Inr s' \<Rightarrow> playHandFuel n s')
      else Some (Inr s))"

text \<open>
  Points: the point value of a multiset of cards, and the points of a state: both
  scores, the tie-points and the value of the cards still in hands and pile. \<open>handInv\<close>
  is the invariant of the loop of \<open>playHand\<close> on a dealt deck: six hands, no card twice,
  and the pile empty once all hands are empty. \<open>deckPoints\<close> is the value of the 36-card
  deck; \<open>handTotal seed\<close> is the sum of both scores and the tie-points in the state that
  \<open>playHand (initMatch seed)\<close> returns (\<open>None\<close> if it throws).
\<close>

definition pointsOf :: "Card multiset \<Rightarrow> nat" where
  "pointsOf M = sum_mset (image_mset (\<lambda>c. POINTS (rank c)) M)"

definition pointsInPlay :: "MatchState \<Rightarrow> nat" where
  "pointsInPlay s = fst (scores s) + snd (scores s) + tiePoints s + pointsOf (cardsOf s)"

definition handInv :: "MatchState \<Rightarrow> bool" where
  "handInv s =
     (length (hands s) = 6 \<and> (\<forall>c. count (cardsOf s) c \<le> 1) \<and>
      (cardsRemaining s = 0 \<longrightarrow> deck s = []))"

definition deckPoints :: nat where
  "deckPoints = sum_list (map (\<lambda>c. POINTS (rank c)) freshDeck)"

definition handTotal :: "jsstring \<Rightarrow> nat option" where
  "handTotal sd =
     (case playHand (initMatch sd) of
        Inl e \<Rightarrow> None
      | Inr t \<Rightarrow> Some (fst (scores t) + snd (scores t) + tiePoints t))"

subsection \<open>A state in mid-trick, used to instantiate the theorems below\<close>

text \<open>
  Player 4 led; players 4, 5, 0, 1, 2 have played; it is player 3's turn, who still
  holds three cards. Trump is spades, 5 tie-points are pending, 7 cards are in the pile.
\<close>

definition exampleState :: MatchState where
  "exampleState =
     \<lparr>seed = [],
      deck = [\<lparr>suit = clubs, rank = RA\<rparr>, \<lparr>suit = clubs, rank = RK\<rparr>,
              \<lparr>suit = clubs, rank = RQ\<rparr>, \<lparr>suit = clubs, rank = RJ\<rparr>,
              \<lparr>suit = clubs, rank = R7\<rparr>, \<lparr>suit = clubs, rank = R6\<rparr>,
              \<lparr>suit = spades, rank = R3\<rparr>],
      trump = spades, leadPlayer = 4,
      hands = [[\<lparr>suit = hearts, rank = R3\<rparr>, \<lparr>suit = hearts, rank = R4\<rparr>],
               [\<lparr>suit = hearts, rank = R5\<rparr>, \<lparr>suit = hearts, rank = R6\<rparr>],
               [\<lparr>suit = hearts, rank = R7\<rparr>, \<lparr>suit = hearts, rank = RJ\<rparr>],
               [\<lparr>suit = spades, rank = R4\<rparr>, \<lparr>suit = hearts, rank = RQ\<rparr>,
                \<lparr>suit = hearts, rank = RK\<rparr>],
               [\<lparr>suit = hearts, rank = RA\<rparr>, \<lparr>suit = spades, rank = RA\<rparr>],
               [\<lparr>suit = spades, rank = RK\<rparr>, \<lparr>suit = spades, rank = RQ\<rparr>]],
      scores = (10, 7), tiePoints = 5, punishment = newPunishmentQueue,
      log_entries = [], trumpCard = \<lparr>suit = spades, rank = R3\<rparr>,
      currentTrick =
        Some [\<lparr>player = 4, played = \<lparr>suit = diamonds, rank = RK\<rparr>\<rparr>,
              \<lparr>player = 5, played = \<lparr>suit = diamonds, rank = RJ\<rparr>\<rparr>,
              \<lparr>player = 0, played = \<lparr>suit = diamonds, rank = RA\<rparr>\<rparr>,
              \<lparr>player = 1, played = \<lparr>suit = diamonds, rank = RQ\<rparr>\<rparr>,
              \<lparr>player = 2, played = \<lparr>suit = diamonds, rank = R5\<rparr>\<rparr>]\<rparr>"

text \<open>The same state once player 3 has played a card: every hand holds two cards.\<close>

definition exampleAfterPlay :: MatchState where
  "exampleAfterPlay =
     exampleState\<lparr>hands := (hands exampleState)
        [3 := [\<lparr>suit = hearts, rank = RQ\<rparr>, \<lparr>suit = hearts, rank = RK\<rparr>]]\<rparr>"

section \<open>Verified properties\<close>

subsection \<open>Rank order\<close>

text \<open>
  Under the earlier revision of the table the 7 ranks below the J; the properties below
  are about the table of the updated rules, \<open>RANK_ORDER\<close>.
\<close>

lemma initial_table_seven_below_J:
  "rankStrengthIn RANK_ORDER_initial R7 < rankStrengthIn RANK_ORDER_initial RJ"
  by (simp add: rankStrengthIn_def RANK_ORDER_initial_def)

text \<open>
  Claim C1. Rank 7 stands second in \<open>RANK_ORDER\<close>. For two cards of the same suit, under
  any trump and any led suit, the card of rank 7 has strictly greater weight than a card
  of rank K, Q or J. In a trick of four plays of one suit with ranks J, K, 7, 5 the
  player of the 7 wins, whatever the trump.
\<close>

theorem rank_seven_second_strongest:
  "RANK_ORDER ! 1 = R7 \<and>
   (suit seven = suit other \<and> rank seven = R7 \<and> rank other \<in> {RK, RQ, RJ}
      \<longrightarrow> cardWeight other trmp led < cardWeight seven trmp led) \<and>
   resolveTrick
     [\<lparr>player = pa, played = \<lparr>suit = st, rank = RJ\<rparr>\<rparr>,
      \<lparr>player = pb, played = \<lparr>suit = st, rank = RK\<rparr>\<rparr>,
      \<lparr>player = pc, played = \<lparr>suit = st, rank = R7\<rparr>\<rparr>,
      \<lparr>player = pd, played = \<lparr>suit = st, rank = R5\<rparr>\<rparr>] tr
     = Inr \<lparr>winner = Some pc, points = 17, tie = False\<rparr>"
proof (intro conjI impI)
  show "RANK_ORDER ! 1 = R7"
    by (simp add: RANK_ORDER_def)
next
  assume "suit seven = suit other \<and> rank seven = R7 \<and> rank other \<in> {RK, RQ, RJ}"
  then show "cardWeight other trmp led < cardWeight seven trmp led"
    by (auto simp: cardWeight_def rankStrengthIn_def RANK_ORDER_def)
next
  show "resolveTrick
     [\<lparr>player = pa, played = \<lparr>suit = st, rank = RJ\<rparr>\<rparr>,
      \<lparr>player = pb, played = \<lparr>suit = st, rank = RK\<rparr>\<rparr>,
      \<lparr>player = pc, played = \<lparr>suit = st, rank = R7\<rparr>\<rparr>,
      \<lparr>player = pd, played = \<lparr>suit = st, rank = R5\<rparr>\<rparr>] tr
     = Inr \<lparr>winner = Some pc, points = 17, tie = False\<rparr>"
    by (simp add: resolveTrick_def maxIndices_def trickPoints_def cardWeight_def
        rankStrengthIn_def RANK_ORDER_def)
qed

theorem rank_seven_second_strongest_witness:
  "cardWeight \<lparr>suit = diamonds, rank = RK\<rparr> hearts (Some diamonds)
     < cardWeight \<lparr>suit = diamonds, rank = R7\<rparr> hearts (Some diamonds) \<and>
   resolveTrick
     [\<lparr>player = 0, played = \<lparr>suit = diamonds, rank = RJ\<rparr>\<rparr>,
      \<lparr>player = 1, played = \<lparr>suit = diamonds, rank = RK\<rparr>\<rparr>,
      \<lparr>player = 2, played = \<lparr>suit = diamonds, rank = R7\<rparr>\<rparr>,
      \<lparr>player = 3, played = \<lparr>suit = diamonds, rank = R5\<rparr>\<rparr>] hearts
     = Inr \<lparr>winner = Some 2, points = 17, tie = False\<rparr>"
  using rank_seven_second_strongest
    [of "\<lparr>suit = diamonds, rank = R7\<rparr>" "\<lparr>suit = diamonds, rank = RK\<rparr>"
        hearts "Some diamonds" 0 diamonds 1 2 3 hearts]
  by simp

subsection \<open>Lead policy\<close>

text \<open>
  Claim C9. \<open>nextLead\<close> keeps the current lead on a tie (no winner), keeps it when the
  winner's team (\<open>winner mod 2\<close>) is the current leader's team, and moves it to the
  winner exactly when the two teams differ; so the lead never passes to another player
  of the team that already leads.
\<close>

theorem nextLead_policy:
  "teamOfPlayer w = w mod 2 \<and>
   nextLead cl None = cl \<and>
   (teamOfPlayer w = teamOfPlayer cl \<longrightarrow> nextLead cl (Some w) = cl) \<and>
   (teamOfPlayer w \<noteq> teamOfPlayer cl \<longrightarrow> nextLead cl (Some w) = w) \<and>
   (nextLead cl (Some w) \<noteq> cl \<longrightarrow>
      nextLead cl (Some w) = w \<and> teamOfPlayer w \<noteq> teamOfPlayer cl)"
  by (simp add: nextLead_def teamOfPlayer_def)

theorem nextLead_policy_witness:
  "nextLead 0 None = 0 \<and> nextLead 0 (Some 2) = 0 \<and> nextLead 0 (Some 1) = 1 \<and>
   nextLead 3 (Some 5) = 3"
  using nextLead_policy [of 2 0] nextLead_policy [of 1 0] nextLead_policy [of 5 3]
  by (simp add: teamOfPlayer_def)

subsection \<open>Punishment queue\<close>

lemma submit_index_in_range: "index (submit q) < length sequence"
  by (simp add: submit_def sequence_def Let_def)

text \<open>
  Claim C2, as amended. From a fresh queue the visible queue has lengths 1, 2, 3, 4, 5, 6
  after calls one to six; the seventh call appends the first "2" and clears the queue,
  the eighth appends the second "2" and clears it again, leaving the cursor at 0; the
  ninth call restarts the cycle with the label "10".
\<close>

theorem punishment_cycle:
  "queue (submitTimes 1 newPunishmentQueue) = [''10''] \<and>
   queue (submitTimes 2 newPunishmentQueue) = [''10'', ''10''] \<and>
   queue (submitTimes 3 newPunishmentQueue) = [''10'', ''10'', ''9''] \<and>
   queue (submitTimes 4 newPunishmentQueue) = [''10'', ''10'', ''9'', ''9''] \<and>
   queue (submitTimes 5 newPunishmentQueue) = [''10'', ''10'', ''9'', ''9'', ''8''] \<and>
   queue (submitTimes 6 newPunishmentQueue) = [''10'', ''10'', ''9'', ''9'', ''8'', ''8''] \<and>
   queue (submitTimes 7 newPunishmentQueue) = [] \<and>
   submitTimes 8 newPunishmentQueue = newPunishmentQueue \<and>
   queue (submitTimes 9 newPunishmentQueue) = [''10'']"
  by code_simp

text \<open>
  The claim as stated asks for a queue of length 7 after the seventh call; the code
  leaves it empty.
\<close>

theorem punishment_seventh_call_counterexample:
  "length (queue (submitTimes 7 newPunishmentQueue)) = 0 \<and>
   length (queue (submitTimes 7 newPunishmentQueue)) \<noteq> 7"
  by code_simp

subsection \<open>Rejected plays\<close>

lemma card_eq_fields: "(rank x = rank c \<and> suit x = suit c) = (x = (c::Card))"
  by (cases x; cases c) auto

lemma findIndex_ge: "- 1 \<le> findIndex P xs"
  by (induction xs) (auto simp: Let_def)

lemma findIndex_none: "(findIndex P xs = - 1) = (\<forall>x \<in> set xs. \<not> P x)"
proof (induction xs)
  case Nil
  show ?case by simp
next
  case (Cons a xs)
  have "- 1 \<le> findIndex P xs" by (rule findIndex_ge)
  with Cons show ?case by (auto simp: Let_def)
qed

text \<open>
  Claim C6. The turn-holder is \<open>(leadPlayer + length of the current trick) mod 6\<close>. A play
  by any other player fails with the turn error, and a play by the turn-holder of a card
  that is not in that player's hand fails with the missing-card error; in both cases the
  state the call leaves is the state it was given, field for field.
\<close>

theorem playCard_rejects_unchanged:
  "turnPlayer s
     = (leadPlayer s + length (case currentTrick s of None \<Rightarrow> [] | Some t \<Rightarrow> t)) mod 6 \<and>
   (p \<noteq> turnPlayer s \<longrightarrow> playCard s p c = (Some TurnError, s)) \<and>
   (p = turnPlayer s \<and> p < length (hands s) \<and> c \<notin> set (hands s ! p)
      \<longrightarrow> playCard s p c = (Some MissingCardError, s))"
  by (auto simp: playCard_def turnPlayer_def trickOf_def Let_def findIndex_none card_eq_fields)

theorem playCard_rejects_unchanged_witness:
  "turnPlayer exampleState = 3 \<and>
   playCard exampleState 0 \<lparr>suit = hearts, rank = R3\<rparr> = (Some TurnError, exampleState) \<and>
   playCard exampleState 3 \<lparr>suit = clubs, rank = R3\<rparr> = (Some MissingCardError, exampleState)"
  using playCard_rejects_unchanged [of exampleState 0 "\<lparr>suit = hearts, rank = R3\<rparr>"]
    playCard_rejects_unchanged [of exampleState 3 "\<lparr>suit = clubs, rank = R3\<rparr>"]
  by (simp add: exampleState_def turnPlayer_def trickOf_def)

subsection \<open>Trick resolver\<close>

lemma fold_max_Max:
  assumes "ws \<noteq> []"
  shows "fold max (tl ws) (hd ws) = Max (set ws)"
proof (cases ws)
  case Nil
  with assms show ?thesis by simp
next
  case (Cons a list)
  then show ?thesis using Max.set_eq_fold [of a list] by simp
qed

lemma zip_upt_nth: "zip ws [0..<length ws] = map (\<lambda>i. (ws ! i, i)) [0..<length ws]"
  by (rule nth_equalityI) auto

lemma maxIndices_eq:
  assumes "ws \<noteq> []"
  shows "maxIndices ws = map int (filter (\<lambda>i. ws ! i = Max (set ws)) [0..<length ws])"
proof -
  let ?m = "Max (set ws)"
  let ?f = "\<lambda>i. if ws ! i = ?m then int i else - 1"
  have "maxIndices ws = filter (\<lambda>i. i \<ge> 0) (map ?f [0..<length ws])"
    using assms by (simp add: maxIndices_def fold_max_Max zip_upt_nth o_def)
  also have "\<dots> = map ?f (filter (\<lambda>i. ws ! i = ?m) [0..<length ws])"
    by (simp add: filter_map o_def cong: filter_cong)
  also have "\<dots> = map int (filter (\<lambda>i. ws ! i = ?m) [0..<length ws])"
    by (rule map_cong) auto
  finally show ?thesis .
qed

lemma max_attained:
  assumes "ws \<noteq> []"
  shows "filter (\<lambda>i. ws ! i = Max (set ws)) [0..<length ws] \<noteq> []"
proof -
  have "Max (set ws) \<in> set ws" using assms by (intro Max_in) auto
  then obtain i where "i < length ws" "ws ! i = Max (set ws)"
    by (auto simp: in_set_conv_nth)
  then show ?thesis by (auto simp: filter_empty_conv)
qed

lemma trickPoints_sum: "trickPoints plays = sum_list (map (\<lambda>p. POINTS (rank (played p))) plays)"
proof -
  have "fold (\<lambda>p acc. acc + POINTS (rank (played p))) plays a
        = a + sum_list (map (\<lambda>p. POINTS (rank (played p))) plays)" for a
    by (induction plays arbitrary: a) auto
  then show ?thesis by (simp add: trickPoints_def)
qed

lemma cardWeight_specWeight: "cardWeight c trmp (Some led) = specWeight trmp led c"
  by (auto simp: cardWeight_def specWeight_def)

lemma resolveTrick_indices:
  assumes "plays \<noteq> []"
  shows "resolveTrick plays trmp =
     (if length (attainingMax plays trmp) > 1
      then Inr \<lparr>winner = None, points = trickPoints plays, tie = True\<rparr>
      else Inr \<lparr>winner = Some (player (plays ! hd (attainingMax plays trmp))),
                points = trickPoints plays, tie = False\<rparr>)"
proof -
  let ?ws = "map (\<lambda>p. specWeight trmp (suit (played (hd plays))) (played p)) plays"
  have ne: "?ws \<noteq> []" using assms by simp
  have idx: "maxIndices ?ws = map int (attainingMax plays trmp)"
    using maxIndices_eq [OF ne] by (simp add: attainingMax_def)
  have att: "attainingMax plays trmp \<noteq> []"
    using max_attained [OF ne] by (simp add: attainingMax_def)
  obtain p0 rest where pl: "plays = p0 # rest" using assms by (cases plays) auto
  have "resolveTrick plays trmp =
     (if length (maxIndices ?ws) > 1
      then Inr \<lparr>winner = None, points = trickPoints plays, tie = True\<rparr>
      else (case maxIndices ?ws of [] \<Rightarrow> Inl TypeError
            | i # _ \<Rightarrow> Inr \<lparr>winner = Some (player (plays ! nat i)),
                points = trickPoints plays, tie = False\<rparr>))"
    unfolding pl resolveTrick_def by (simp add: cardWeight_specWeight Let_def)
  also have "\<dots> = (if length (attainingMax plays trmp) > 1
      then Inr \<lparr>winner = None, points = trickPoints plays, tie = True\<rparr>
      else Inr \<lparr>winner = Some (player (plays ! hd (attainingMax plays trmp))),
                points = trickPoints plays, tie = False\<rparr>)"
    using att unfolding idx by (cases "attainingMax plays trmp") auto
  finally show ?thesis .
qed

text \<open>
  Claim C4. \<open>resolveTrick\<close> fails exactly when the list of plays is empty. For a
  non-empty list it returns as points the sum of the point values of all played ranks,
  whether or not the trick is tied. With the weights of \<open>specWeight\<close> (trump 200 +
  strength, suit of the first play 100 + strength, else strength), at least one play
  attains the maximum; if exactly one does, its player is the winner and tie is false; if
  more than one does, the winner is null and tie is true.
\<close>

theorem resolveTrick_spec:
  "((\<exists>e. resolveTrick plays trmp = Inl e) = (plays = [])) \<and>
   (plays \<noteq> [] \<longrightarrow>
      (\<exists>r. resolveTrick plays trmp = Inr r \<and>
           points r = sum_list (map (\<lambda>p. POINTS (rank (played p))) plays) \<and>
           1 \<le> length (attainingMax plays trmp) \<and>
           (length (attainingMax plays trmp) = 1 \<longrightarrow>
              winner r = Some (player (plays ! hd (attainingMax plays trmp))) \<and> tie r = False) \<and>
           (1 < length (attainingMax plays trmp) \<longrightarrow> winner r = None \<and> tie r = True)))"
proof (cases "plays = []")
  case True
  then show ?thesis by (simp add: resolveTrick_def)
next
  case False
  have att: "attainingMax plays trmp \<noteq> []"
    using max_attained [of "map (\<lambda>p. specWeight trmp (suit (played (hd plays))) (played p)) plays"] False
    by (simp add: attainingMax_def)
  then have "1 \<le> length (attainingMax plays trmp)"
    by (cases "attainingMax plays trmp") auto
  with False show ?thesis
    by (simp add: resolveTrick_indices trickPoints_sum)
qed

theorem resolveTrick_spec_witness:
  "resolveTrick
     [\<lparr>player = 0, played = \<lparr>suit = clubs, rank = R6\<rparr>\<rparr>,
      \<lparr>player = 1, played = \<lparr>suit = clubs, rank = RA\<rparr>\<rparr>,
      \<lparr>player = 2, played = \<lparr>suit = spades, rank = R4\<rparr>\<rparr>] spades
     = Inr \<lparr>winner = Some 2, points = 11, tie = False\<rparr> \<and>
   resolveTrick
     [\<lparr>player = 0, played = \<lparr>suit = hearts, rank = RA\<rparr>\<rparr>,
      \<lparr>player = 1, played = \<lparr>suit = hearts, rank = RA\<rparr>\<rparr>,
      \<lparr>player = 2, played = \<lparr>suit = hearts, rank = RK\<rparr>\<rparr>] clubs
     = Inr \<lparr>winner = None, points = 26, tie = True\<rparr>"
proof -
  let ?p1 = "[\<lparr>player = 0, played = \<lparr>suit = clubs, rank = R6\<rparr>\<rparr>,
      \<lparr>player = 1, played = \<lparr>suit = clubs, rank = RA\<rparr>\<rparr>,
      \<lparr>player = 2, played = \<lparr>suit = spades, rank = R4\<rparr>\<rparr>]"
  let ?p2 = "[\<lparr>player = 0, played = \<lparr>suit = hearts, rank = RA\<rparr>\<rparr>,
      \<lparr>player = 1, played = \<lparr>suit = hearts, rank = RA\<rparr>\<rparr>,
      \<lparr>player = 2, played = \<lparr>suit = hearts, rank = RK\<rparr>\<rparr>]"
  have a1: "attainingMax ?p1 spades = [2]"
    by (simp add: attainingMax_def specWeight_def rankStrengthIn_def RANK_ORDER_def)
  have a2: "attainingMax ?p2 clubs = [0, 1]"
    by (simp add: attainingMax_def specWeight_def rankStrengthIn_def RANK_ORDER_def)
  from resolveTrick_spec [of ?p1 spades] a1
  have r1: "resolveTrick ?p1 spades = Inr \<lparr>winner = Some 2, points = 11, tie = False\<rparr>"
    by auto
  from resolveTrick_spec [of ?p2 clubs] a2
  have r2: "resolveTrick ?p2 clubs = Inr \<lparr>winner = None, points = 26, tie = True\<rparr>"
    by auto
  from r1 r2 show ?thesis by simp
qed

subsection \<open>Draw replenishment\<close>

lemma missing_update_other: "q \<noteq> p \<Longrightarrow> missing (hs[p := h]) q = missing hs q"
  by (simp add: missing_def)

lemma sum_missing_update:
  "p \<notin> set ps \<Longrightarrow> sum_list (map (missing (hs[p := h])) ps) = sum_list (map (missing hs) ps)"
  by (induction ps) (auto simp: missing_update_other)

lemma drawLoop_spec:
  assumes "distinct (map (\<lambda>offset. (w + offset) mod 6) os)" and "6 \<le> length hs"
  shows "\<exists>hs'. drawLoop w os hs d
            = (None, hs', drop (sum_list (map (missing hs) (map (\<lambda>offset. (w + offset) mod 6) os))) d) \<and>
          length hs' = length hs \<and>
          (\<forall>q. q \<notin> set (map (\<lambda>offset. (w + offset) mod 6) os) \<longrightarrow> hs' ! q = hs ! q) \<and>
          (\<forall>k < length os.
             hs' ! (map (\<lambda>offset. (w + offset) mod 6) os ! k)
               = hs ! (map (\<lambda>offset. (w + offset) mod 6) os ! k)
                 @ drawnBy (map (\<lambda>offset. (w + offset) mod 6) os) hs d k)"
  using assms
proof (induction os arbitrary: hs d)
  case Nil
  show ?case by simp
next
  case (Cons a os)
  let ?pf = "\<lambda>offset. (w + offset) mod 6"
  let ?p = "?pf a"
  let ?ps = "map ?pf os"
  let ?h = "hs ! ?p @ take (missing hs ?p) d"
  let ?hs1 = "hs[?p := ?h]"
  let ?d1 = "drop (missing hs ?p) d"
  have pr: "?p < length hs" using Cons.prems(2) by (simp add: less_le_trans [OF mod_less_divisor])
  have notin: "?p \<notin> set ?ps" and dist: "distinct ?ps" using Cons.prems(1) by auto
  have len1: "6 \<le> length ?hs1" using Cons.prems(2) by simp
  from Cons.IH [OF dist len1, of ?d1]
  obtain hs' where
    run: "drawLoop w os ?hs1 ?d1 = (None, hs', drop (sum_list (map (missing ?hs1) ?ps)) ?d1)" and
    len: "length hs' = length ?hs1" and
    same: "\<forall>q. q \<notin> set ?ps \<longrightarrow> hs' ! q = ?hs1 ! q" and
    got: "\<forall>k < length os. hs' ! (?ps ! k) = ?hs1 ! (?ps ! k) @ drawnBy ?ps ?hs1 ?d1 k"
    by blast
  have sm: "sum_list (map (missing ?hs1) xs) = sum_list (map (missing hs) xs)" if "?p \<notin> set xs" for xs
    using that by (rule sum_missing_update)
  have step: "drawLoop w (a # os) hs d = drawLoop w os ?hs1 ?d1"
    using pr by (simp add: drawUpTo3_eq missing_def Let_def)
  have c1: "drawLoop w (a # os) hs d
      = (None, hs', drop (sum_list (map (missing hs) (map ?pf (a # os)))) d)"
    using run step sm [OF notin] by (simp add: add.commute)
  have c2: "length hs' = length hs" using len by simp
  have c3: "\<forall>q. q \<notin> set (map ?pf (a # os)) \<longrightarrow> hs' ! q = hs ! q"
    using same by auto
  have c4: "hs' ! (map ?pf (a # os) ! k) = hs ! (map ?pf (a # os) ! k) @ drawnBy (map ?pf (a # os)) hs d k"
    if k: "k < length (a # os)" for k
  proof (cases k)
    case 0
    have "hs' ! ?p = ?hs1 ! ?p" using same notin by blast
    also have "\<dots> = ?h" using pr by simp
    finally show ?thesis using 0 by (simp add: drawnBy_def)
  next
    case (Suc j)
    with k have j: "j < length os" by simp
    then have inps: "?ps ! j \<in> set ?ps" by (metis length_map nth_mem)
    with notin have ne: "?ps ! j \<noteq> ?p" by metis
    have sub: "?p \<notin> set (take j ?ps)" using notin by (meson in_set_takeD)
    have "hs' ! (?ps ! j) = ?hs1 ! (?ps ! j) @ drawnBy ?ps ?hs1 ?d1 j" using got j by blast
    also have "?hs1 ! (?ps ! j) = hs ! (?ps ! j)" using ne by simp
    also have "drawnBy ?ps ?hs1 ?d1 j = drawnBy (map ?pf (a # os)) hs d (Suc j)"
      using ne sm [OF sub] by (simp add: drawnBy_def missing_update_other add.commute)
    finally show ?thesis using Suc by simp
  qed
  from c1 c2 c3 c4 show ?case by blast
qed

lemma drawOrder_distinct: "distinct (drawOrder w)"
proof -
  have "w mod 6 < 6" by simp
  then consider "w mod 6 = 0" | "w mod 6 = 1" | "w mod 6 = 2" | "w mod 6 = 3" | "w mod 6 = 4" | "w mod 6 = 5"
    by linarith
  then show ?thesis
    by cases (simp_all add: drawOrder_def upt_conv_Cons mod_add_left_eq [of w 6, symmetric])
qed

lemma sum_list_all_one: "(\<forall>x \<in> set xs. f x = (1::nat)) \<Longrightarrow> sum_list (map f xs) = length xs"
  by (induction xs) auto

lemma all_less_six: "(\<forall>k<(6::nat). P k) = (P 0 \<and> P 1 \<and> P 2 \<and> P 3 \<and> P 4 \<and> P 5)"
proof -
  have "{k. k < (6::nat)} = {0, 1, 2, 3, 4, 5}" by auto
  then have "(\<forall>k<(6::nat). P k) = (\<forall>k \<in> {0, 1, 2, 3, 4, 5}. P k)" by blast
  then show ?thesis by simp
qed

lemma drawOrder_length: "length (drawOrder w) = 6"
  by (simp add: drawOrder_def)

lemma drawOrder_less: "k < 6 \<Longrightarrow> drawOrder w ! k < 6"
  by (simp add: drawOrder_def)

lemma drawAfterTrick_spec:
  assumes "length (hands s) = 6"
  shows "\<exists>hs' d'. drawAfterTrick s w = (None, s\<lparr>hands := hs', deck := d'\<rparr>) \<and>
          length hs' = 6 \<and>
          d' = drop (sum_list (map (missing (hands s)) (drawOrder w))) (deck s) \<and>
          (\<forall>k<6. hs' ! (drawOrder w ! k)
                    = hands s ! (drawOrder w ! k) @ drawnBy (drawOrder w) (hands s) (deck s) k)"
proof -
  have d: "distinct (map (\<lambda>offset. (w + offset) mod 6) [0..<6])"
    using drawOrder_distinct [of w] by (simp add: drawOrder_def)
  have l: "6 \<le> length (hands s)" using assms by simp
  from drawLoop_spec [OF d l, of "deck s"] assms
  show ?thesis
    unfolding drawAfterTrick_def drawOrder_def by auto
qed

lemma drawnBy_one_each:
  assumes two: "\<forall>p<6. length (hs ! p) = 2" and pile: "6 \<le> length d" and k: "k < 6"
  shows "drawnBy (drawOrder w) hs d k = [d ! k]"
proof -
  have one: "missing hs p = 1" if "p < 6" for p using two that by (simp add: missing_def)
  have "\<forall>x \<in> set (take k (drawOrder w)). missing hs x = 1"
  proof
    fix x assume "x \<in> set (take k (drawOrder w))"
    then have "x \<in> set (drawOrder w)" by (rule in_set_takeD)
    then have "x < 6" by (auto simp: drawOrder_def)
    then show "missing hs x = 1" by (rule one)
  qed
  then have "sum_list (map (missing hs) (take k (drawOrder w))) = length (take k (drawOrder w))"
    by (rule sum_list_all_one)
  also have "\<dots> = k" using k by (simp add: drawOrder_length)
  finally have s: "sum_list (map (missing hs) (take k (drawOrder w))) = k" .
  have kd: "k < length d" using k pile by simp
  have "take 1 (drop k d) = [d ! k]"
    using Cons_nth_drop_Suc [OF kd, symmetric] by simp
  then show ?thesis
    using s one [OF drawOrder_less [OF k]] by (simp add: drawnBy_def)
qed

lemma partial_sum_le:
  fixes f :: "'a \<Rightarrow> nat"
  assumes "k < length xs"
  shows "sum_list (map f (take k xs)) + f (xs ! k) \<le> sum_list (map f xs)"
proof -
  have "xs = take k xs @ xs ! k # drop (Suc k) xs" using assms by (rule id_take_nth_drop)
  then have "sum_list (map f xs) = sum_list (map f (take k xs @ xs ! k # drop (Suc k) xs))"
    by simp
  then show ?thesis by simp
qed

lemma drawnBy_enough:
  assumes pile: "sum_list (map (missing hs) order) \<le> length d" and k: "k < length order"
  shows "length (drawnBy order hs d k) = missing hs (order ! k)"
proof -
  from partial_sum_le [OF k, of "missing hs"] pile
  have "sum_list (map (missing hs) (take k order)) + missing hs (order ! k) \<le> length d"
    by linarith
  then show ?thesis by (simp add: drawnBy_def)
qed

text \<open>
  Claim C8. Replenishment visits the players in the order \<open>(winner + offset) mod 6\<close>,
  offset 0 to 5 (for winner 3: players 3, 4, 5, 0, 1, 2). With six hands it completes, and
  the \<open>k\<close>-th player of that order receives the cards of the pile that follow those
  received by the players before: as many as the hand lacks to hold three, or what is
  left of the pile. When the pile holds at least the cards that the six hands lack, every
  hand of fewer than three cards ends with exactly three. In particular, when every hand
  holds two cards (as after a six-card trick from full hands) and the pile has at least
  six cards, the \<open>k\<close>-th player of the order receives exactly the \<open>k\<close>-th card of the
  pile and then holds three cards.
\<close>

theorem drawAfterTrick_order:
  "drawOrder w = map (\<lambda>offset. (w + offset) mod 6) [0, 1, 2, 3, 4, 5] \<and>
   drawOrder 3 = [3, 4, 5, 0, 1, 2] \<and>
   (length (hands s) = 6 \<longrightarrow>
      (\<exists>hs' d'. drawAfterTrick s w = (None, s\<lparr>hands := hs', deck := d'\<rparr>) \<and>
         length hs' = 6 \<and>
         d' = drop (sum_list (map (missing (hands s)) (drawOrder w))) (deck s) \<and>
         (\<forall>k<6. hs' ! (drawOrder w ! k)
                   = hands s ! (drawOrder w ! k) @ drawnBy (drawOrder w) (hands s) (deck s) k) \<and>
         (sum_list (map (missing (hands s)) (drawOrder w)) \<le> length (deck s) \<longrightarrow>
            (\<forall>k<6. length (hs' ! (drawOrder w ! k))
                      = max 3 (length (hands s ! (drawOrder w ! k))))) \<and>
         ((\<forall>p<6. length (hands s ! p) = 2) \<and> 6 \<le> length (deck s) \<longrightarrow>
            (\<forall>k<6. hs' ! (drawOrder w ! k) = hands s ! (drawOrder w ! k) @ [deck s ! k] \<and>
                    length (hs' ! (drawOrder w ! k)) = 3) \<and>
            d' = drop 6 (deck s))))"
proof (intro conjI impI)
  show "drawOrder w = map (\<lambda>offset. (w + offset) mod 6) [0, 1, 2, 3, 4, 5]"
    by (simp add: drawOrder_def upt_conv_Cons add.commute)
next
  show "drawOrder 3 = [3, 4, 5, 0, 1, 2]"
    by (simp add: drawOrder_def upt_conv_Cons)
next
  assume len: "length (hands s) = 6"
  from drawAfterTrick_spec [OF len, of w]
  obtain hs' d' where
    run: "drawAfterTrick s w = (None, s\<lparr>hands := hs', deck := d'\<rparr>)" and
    l6: "length hs' = 6" and
    dd: "d' = drop (sum_list (map (missing (hands s)) (drawOrder w))) (deck s)" and
    got: "\<forall>k<6. hs' ! (drawOrder w ! k)
                   = hands s ! (drawOrder w ! k) @ drawnBy (drawOrder w) (hands s) (deck s) k"
    by blast
  have full: "\<forall>k<6. length (hs' ! (drawOrder w ! k)) = max 3 (length (hands s ! (drawOrder w ! k)))"
    if pile: "sum_list (map (missing (hands s)) (drawOrder w)) \<le> length (deck s)"
  proof (intro allI impI)
    fix k :: nat
    assume k: "k < 6"
    then have "k < length (drawOrder w)" by (simp add: drawOrder_length)
    from drawnBy_enough [OF pile this]
    have "length (drawnBy (drawOrder w) (hands s) (deck s) k) = missing (hands s) (drawOrder w ! k)" .
    with got k show "length (hs' ! (drawOrder w ! k)) = max 3 (length (hands s ! (drawOrder w ! k)))"
      by (simp add: missing_def)
  qed
  have part: "(\<forall>k<6. hs' ! (drawOrder w ! k) = hands s ! (drawOrder w ! k) @ [deck s ! k] \<and>
                    length (hs' ! (drawOrder w ! k)) = 3) \<and> d' = drop 6 (deck s)"
    if h: "(\<forall>p<6. length (hands s ! p) = 2) \<and> 6 \<le> length (deck s)"
  proof -
    from h have two: "\<forall>p<6. length (hands s ! p) = 2" and pile: "6 \<le> length (deck s)" by auto
    have a: "hs' ! (drawOrder w ! k) = hands s ! (drawOrder w ! k) @ [deck s ! k] \<and>
                    length (hs' ! (drawOrder w ! k)) = 3" if k: "k < 6" for k
      using got k drawnBy_one_each [OF two pile k, of w] two drawOrder_less [OF k, of w] by simp
    have "\<forall>x \<in> set (drawOrder w). missing (hands s) x = 1"
      using two by (auto simp: drawOrder_def missing_def)
    then have "sum_list (map (missing (hands s)) (drawOrder w)) = length (drawOrder w)"
      by (rule sum_list_all_one)
    with dd have "d' = drop 6 (deck s)" by (simp add: drawOrder_length)
    with a show ?thesis by blast
  qed
  from run l6 dd got full part
  show "\<exists>hs' d'. drawAfterTrick s w = (None, s\<lparr>hands := hs', deck := d'\<rparr>) \<and>
         length hs' = 6 \<and>
         d' = drop (sum_list (map (missing (hands s)) (drawOrder w))) (deck s) \<and>
         (\<forall>k<6. hs' ! (drawOrder w ! k)
                   = hands s ! (drawOrder w ! k) @ drawnBy (drawOrder w) (hands s) (deck s) k) \<and>
         (sum_list (map (missing (hands s)) (drawOrder w)) \<le> length (deck s) \<longrightarrow>
            (\<forall>k<6. length (hs' ! (drawOrder w ! k))
                      = max 3 (length (hands s ! (drawOrder w ! k))))) \<and>
         ((\<forall>p<6. length (hands s ! p) = 2) \<and> 6 \<le> length (deck s) \<longrightarrow>
            (\<forall>k<6. hs' ! (drawOrder w ! k) = hands s ! (drawOrder w ! k) @ [deck s ! k] \<and>
                    length (hs' ! (drawOrder w ! k)) = 3) \<and>
            d' = drop 6 (deck s))"
    by blast
qed

theorem drawAfterTrick_order_witness:
  "length (hands exampleAfterPlay) = 6 \<and> 6 \<le> length (deck exampleAfterPlay) \<and>
   fst (drawAfterTrick exampleAfterPlay 3) = None \<and>
   hands (snd (drawAfterTrick exampleAfterPlay 3)) ! 3
     = [\<lparr>suit = hearts, rank = RQ\<rparr>, \<lparr>suit = hearts, rank = RK\<rparr>, \<lparr>suit = clubs, rank = RA\<rparr>] \<and>
   hands (snd (drawAfterTrick exampleAfterPlay 3)) ! 4
     = [\<lparr>suit = hearts, rank = RA\<rparr>, \<lparr>suit = spades, rank = RA\<rparr>, \<lparr>suit = clubs, rank = RK\<rparr>] \<and>
   hands (snd (drawAfterTrick exampleAfterPlay 3)) ! 2
     = [\<lparr>suit = hearts, rank = R7\<rparr>, \<lparr>suit = hearts, rank = RJ\<rparr>, \<lparr>suit = clubs, rank = R6\<rparr>] \<and>
   deck (snd (drawAfterTrick exampleAfterPlay 3)) = [\<lparr>suit = spades, rank = R3\<rparr>]"
proof -
  have len: "length (hands exampleAfterPlay) = 6"
    by (simp add: exampleAfterPlay_def exampleState_def)
  have two: "\<forall>p<6. length (hands exampleAfterPlay ! p) = 2"
    by (simp add: all_less_six exampleAfterPlay_def exampleState_def)
  have pile: "6 \<le> length (deck exampleAfterPlay)"
    by (simp add: exampleAfterPlay_def exampleState_def)
  from drawAfterTrick_order [of 3 exampleAfterPlay] len two pile
  obtain hs' d' where
    run: "drawAfterTrick exampleAfterPlay 3 = (None, exampleAfterPlay\<lparr>hands := hs', deck := d'\<rparr>)" and
    got: "\<forall>k<6. hs' ! (drawOrder 3 ! k)
            = hands exampleAfterPlay ! (drawOrder 3 ! k) @ [deck exampleAfterPlay ! k]" and
    dd: "d' = drop 6 (deck exampleAfterPlay)"
    by auto
  from got have "hs' ! 3 = hands exampleAfterPlay ! 3 @ [deck exampleAfterPlay ! 0]"
    "hs' ! 4 = hands exampleAfterPlay ! 4 @ [deck exampleAfterPlay ! 1]"
    "hs' ! 2 = hands exampleAfterPlay ! 2 @ [deck exampleAfterPlay ! 5]"
    by (simp_all add: all_less_six drawOrder_def upt_conv_Cons)
  with run dd len pile show ?thesis
    by (simp add: exampleAfterPlay_def exampleState_def)
qed

subsection \<open>Completing a trick\<close>

lemma findIndex_nonneg: "findIndex P xs \<noteq> - 1 \<Longrightarrow> 0 \<le> findIndex P xs"
  using findIndex_ge [of P xs] by linarith

lemma splice1_findIndex:
  assumes "c \<in> set xs"
  shows "splice1 (nat (findIndex (\<lambda>x. x = c) xs)) xs = remove1 c xs"
  using assms
proof (induction xs)
  case Nil
  then show ?case by simp
next
  case (Cons a xs)
  show ?case
  proof (cases "a = c")
    case True
    then show ?thesis by (simp add: splice1_def)
  next
    case False
    with Cons.prems have mem: "c \<in> set xs" by simp
    then have "findIndex (\<lambda>x. x = c) xs \<noteq> - 1" by (auto simp: findIndex_none)
    then have pos: "0 \<le> findIndex (\<lambda>x. x = c) xs" by (rule findIndex_nonneg)
    then have n: "nat (findIndex (\<lambda>x. x = c) xs + 1) = Suc (nat (findIndex (\<lambda>x. x = c) xs))"
      by linarith
    from Cons.IH [OF mem] have "take (nat (findIndex (\<lambda>x. x = c) xs)) xs
        @ drop (Suc (nat (findIndex (\<lambda>x. x = c) xs))) xs = remove1 c xs"
      by (simp add: splice1_def)
    with False pos n show ?thesis by (simp add: splice1_def Let_def)
  qed
qed

lemma playCard_complete_eq:
  assumes "p = turnPlayer s" and "p < length (hands s)" and "c \<in> set (hands s ! p)"
    and "length (trickOf s) = 5"
  shows "playCard s p c =
     (case resolveTrick (trickOf s @ [\<lparr>player = p, played = c\<rparr>]) (trump s) of
        Inl e \<Rightarrow> (Some e, s\<lparr>hands := (hands s)[p := remove1 c (hands s ! p)],
                             log_entries := log_entries s @ [playLogEntry p c],
                             currentTrick := Some []\<rparr>)
      | Inr r \<Rightarrow> settleTrick (s\<lparr>hands := (hands s)[p := remove1 c (hands s ! p)],
                               log_entries := log_entries s @ [playLogEntry p c],
                               currentTrick := Some []\<rparr>) r)"
proof -
  have f: "findIndex (\<lambda>x. x = c) (hands s ! p) \<noteq> - 1"
    using assms(3) by (auto simp: findIndex_none)
  show ?thesis
    using assms f
    by (simp add: playCard_def Let_def card_eq_fields splice1_findIndex split: sum.splits)
qed

lemma resolveTrick_nonempty:
  assumes "plays \<noteq> []"
  shows "\<exists>r. resolveTrick plays trmp = Inr r \<and> points r = trickPoints plays \<and>
           (tie r \<longrightarrow> winner r = None) \<and>
           (\<not> tie r \<longrightarrow> (\<exists>i < length plays. winner r = Some (player (plays ! i))))"
proof -
  have att: "attainingMax plays trmp \<noteq> []"
    using max_attained [of "map (\<lambda>p. specWeight trmp (suit (played (hd plays))) (played p)) plays"] assms
    by (simp add: attainingMax_def)
  then have "hd (attainingMax plays trmp) \<in> set (attainingMax plays trmp)" by simp
  then have "hd (attainingMax plays trmp) < length plays"
    by (simp add: attainingMax_def Let_def)
  then show ?thesis
    by (auto simp: resolveTrick_indices [OF assms])
qed

lemma settleTrick_tie:
  "tie r \<Longrightarrow> settleTrick s r = (None, s\<lparr>tiePoints := tiePoints s + points r\<rparr>)"
  by (simp add: settleTrick_def)

lemma teamScore_addScore:
  "teamScore (teamOfPlayer w) (addScore (teamOfPlayer w) n sc) = teamScore (teamOfPlayer w) sc + n \<and>
   teamScore (1 - teamOfPlayer w) (addScore (teamOfPlayer w) n sc) = teamScore (1 - teamOfPlayer w) sc \<and>
   teamScore (Suc 0 - teamOfPlayer w) (addScore (teamOfPlayer w) n sc)
     = teamScore (Suc 0 - teamOfPlayer w) sc"
  by (auto simp: teamScore_def addScore_def teamOfPlayer_def)

lemma drawAfterTrick_fields:
  assumes "drawAfterTrick s1 w = (e, s1')" and "hands s2 = hands s1" and "deck s2 = deck s1"
  shows "\<exists>s2'. drawAfterTrick s2 w = (e, s2') \<and> hands s2' = hands s1' \<and> deck s2' = deck s1'"
  using assms by (auto simp: drawAfterTrick_def Let_def split: prod.splits)

text \<open>
  Claim C5. Let the turn-holder play a card of their hand as the sixth play of the trick,
  in a state with six hands. The call succeeds, the trick is resolved and the in-progress
  trick is left empty. If the resolution is a tie, its points are added to the tie-points
  and the lead, the scores, the hands and the pile are unchanged. Otherwise there is a
  winner: the score of the winner's team grows by exactly the trick's points plus the
  tie-points carried before, the other team's score is unchanged, the tie-points become 0
  and the lead is \<open>nextLead\<close> of the old lead and the winner. If the pile was non-empty,
  replenishment has taken place: the \<open>k\<close>-th player of the order
  \<open>(winner + offset) mod 6\<close> holds their hand followed by the cards \<open>drawnBy\<close> assigns to
  them, the winner's hand is extended by the first cards of the pile up to three cards,
  and the pile has lost the cards the hands lacked. If the pile was empty, hands and pile
  are left as they were.
\<close>

theorem playCard_completes_trick:
  "p = turnPlayer s \<and> length (hands s) = 6 \<and> c \<in> set (hands s ! p) \<and> length (trickOf s) = 5 \<longrightarrow>
   (\<exists>r s'. resolveTrick (trickOf s @ [\<lparr>player = p, played = c\<rparr>]) (trump s) = Inr r \<and>
      playCard s p c = (None, s') \<and>
      currentTrick s' = Some [] \<and>
      (tie r \<longrightarrow>
         tiePoints s' = tiePoints s + points r \<and> leadPlayer s' = leadPlayer s \<and>
         scores s' = scores s \<and>
         hands s' = (hands s)[p := remove1 c (hands s ! p)] \<and> deck s' = deck s) \<and>
      (\<not> tie r \<longrightarrow>
         (\<exists>w. winner r = Some w \<and>
            teamScore (teamOfPlayer w) (scores s')
              = teamScore (teamOfPlayer w) (scores s) + (points r + tiePoints s) \<and>
            teamScore (1 - teamOfPlayer w) (scores s') = teamScore (1 - teamOfPlayer w) (scores s) \<and>
            tiePoints s' = 0 \<and>
            leadPlayer s' = nextLead (leadPlayer s) (Some w) \<and>
            (deck s \<noteq> [] \<longrightarrow>
               (\<exists>d. drawAfterTrick (s\<lparr>hands := (hands s)[p := remove1 c (hands s ! p)]\<rparr>) w = (None, d) \<and>
                    hands s' = hands d \<and> deck s' = deck d) \<and>
               length (hands s') = 6 \<and>
               (\<forall>k<6. hands s' ! (drawOrder w ! k)
                  = (hands s)[p := remove1 c (hands s ! p)] ! (drawOrder w ! k)
                    @ drawnBy (drawOrder w) ((hands s)[p := remove1 c (hands s ! p)]) (deck s) k) \<and>
               deck s' = drop (sum_list (map (missing ((hands s)[p := remove1 c (hands s ! p)]))
                                          (drawOrder w))) (deck s) \<and>
               hands s' ! (w mod 6)
                 = (hands s)[p := remove1 c (hands s ! p)] ! (w mod 6)
                   @ take (3 - length ((hands s)[p := remove1 c (hands s ! p)] ! (w mod 6))) (deck s)) \<and>
            (deck s = [] \<longrightarrow>
               hands s' = (hands s)[p := remove1 c (hands s ! p)] \<and> deck s' = []))))"
proof
  assume h: "p = turnPlayer s \<and> length (hands s) = 6 \<and> c \<in> set (hands s ! p) \<and> length (trickOf s) = 5"
  let ?plays = "trickOf s @ [\<lparr>player = p, played = c\<rparr>]"
  let ?hs = "(hands s)[p := remove1 c (hands s ! p)]"
  let ?s4 = "s\<lparr>hands := ?hs, log_entries := log_entries s @ [playLogEntry p c],
               currentTrick := Some []\<rparr>"
  from h have turn: "p = turnPlayer s" and len: "length (hands s) = 6"
    and mem: "c \<in> set (hands s ! p)" and five: "length (trickOf s) = 5" by auto
  have p6: "p < length (hands s)" using turn len by (simp add: turnPlayer_def)
  obtain r where r: "resolveTrick ?plays (trump s) = Inr r"
    and win: "\<not> tie r \<longrightarrow> (\<exists>i < length ?plays. winner r = Some (player (?plays ! i)))"
    using resolveTrick_nonempty [of ?plays "trump s"] by auto
  have pc: "playCard s p c = settleTrick ?s4 r"
    using playCard_complete_eq [OF turn p6 mem five] r by simp
  show "\<exists>r s'. resolveTrick ?plays (trump s) = Inr r \<and>
      playCard s p c = (None, s') \<and>
      currentTrick s' = Some [] \<and>
      (tie r \<longrightarrow>
         tiePoints s' = tiePoints s + points r \<and> leadPlayer s' = leadPlayer s \<and>
         scores s' = scores s \<and> hands s' = ?hs \<and> deck s' = deck s) \<and>
      (\<not> tie r \<longrightarrow>
         (\<exists>w. winner r = Some w \<and>
            teamScore (teamOfPlayer w) (scores s')
              = teamScore (teamOfPlayer w) (scores s) + (points r + tiePoints s) \<and>
            teamScore (1 - teamOfPlayer w) (scores s') = teamScore (1 - teamOfPlayer w) (scores s) \<and>
            tiePoints s' = 0 \<and>
            leadPlayer s' = nextLead (leadPlayer s) (Some w) \<and>
            (deck s \<noteq> [] \<longrightarrow>
               (\<exists>d. drawAfterTrick (s\<lparr>hands := ?hs\<rparr>) w = (None, d) \<and>
                    hands s' = hands d \<and> deck s' = deck d) \<and>
               length (hands s') = 6 \<and>
               (\<forall>k<6. hands s' ! (drawOrder w ! k)
                  = ?hs ! (drawOrder w ! k) @ drawnBy (drawOrder w) ?hs (deck s) k) \<and>
               deck s' = drop (sum_list (map (missing ?hs) (drawOrder w))) (deck s) \<and>
               hands s' ! (w mod 6)
                 = ?hs ! (w mod 6) @ take (3 - length (?hs ! (w mod 6))) (deck s)) \<and>
            (deck s = [] \<longrightarrow> hands s' = ?hs \<and> deck s' = [])))"
  proof (cases "tie r")
    case True
    then have "playCard s p c = (None, ?s4\<lparr>tiePoints := tiePoints s + points r\<rparr>)"
      using pc by (simp add: settleTrick_tie)
    with True r show ?thesis by simp
  next
    case False
    with win obtain w where w: "winner r = Some w" by blast
    let ?s3 = "?s4\<lparr>scores := addScore (teamOfPlayer w) (points r + tiePoints s) (scores s),
                  tiePoints := 0, leadPlayer := nextLead (leadPlayer s) (Some w)\<rparr>"
    have st: "playCard s p c = (if deck s \<noteq> [] then drawAfterTrick ?s3 w else (None, ?s3))"
      using pc settleTrick_win [OF False w, of ?s4] by (simp add: Let_def)
    show ?thesis
    proof (cases "deck s = []")
      case True
      with st have "playCard s p c = (None, ?s3)" by simp
      with True False w r show ?thesis by (simp add: teamScore_addScore)
    next
      case ne: False
      have l3: "length (hands ?s3) = 6" using len by simp
      from drawAfterTrick_spec [OF l3, of w]
      obtain hs' d' where run: "drawAfterTrick ?s3 w = (None, ?s3\<lparr>hands := hs', deck := d'\<rparr>)"
        and l6: "length hs' = 6"
        and dd: "d' = drop (sum_list (map (missing ?hs) (drawOrder w))) (deck s)"
        and got: "\<forall>k<6. hs' ! (drawOrder w ! k)
                    = ?hs ! (drawOrder w ! k) @ drawnBy (drawOrder w) ?hs (deck s) k"
        by auto
      have first: "hs' ! (w mod 6) = ?hs ! (w mod 6) @ take (3 - length (?hs ! (w mod 6))) (deck s)"
      proof -
        have z: "drawOrder w ! 0 = w mod 6" by (simp add: drawOrder_def upt_conv_Cons)
        from got have "hs' ! (drawOrder w ! 0)
            = ?hs ! (drawOrder w ! 0) @ drawnBy (drawOrder w) ?hs (deck s) 0" by simp
        then show ?thesis unfolding z by (simp add: drawnBy_def missing_def z)
      qed
      from drawAfterTrick_fields [OF run, of "s\<lparr>hands := ?hs\<rparr>"]
      obtain d where same: "drawAfterTrick (s\<lparr>hands := ?hs\<rparr>) w = (None, d)"
        "hands d = hs'" "deck d = d'"
        by auto
      from st ne run have "playCard s p c = (None, ?s3\<lparr>hands := hs', deck := d'\<rparr>)" by simp
      with ne False w r same l6 dd got first show ?thesis by (simp add: teamScore_addScore)
    qed
  qed
qed

theorem playCard_completes_trick_witness:
  "turnPlayer exampleState = 3 \<and> length (trickOf exampleState) = 5 \<and>
   fst (playCard exampleState 3 \<lparr>suit = spades, rank = R4\<rparr>) = None \<and>
   currentTrick (snd (playCard exampleState 3 \<lparr>suit = spades, rank = R4\<rparr>)) = Some [] \<and>
   scores (snd (playCard exampleState 3 \<lparr>suit = spades, rank = R4\<rparr>)) = (10, 32) \<and>
   tiePoints (snd (playCard exampleState 3 \<lparr>suit = spades, rank = R4\<rparr>)) = 0 \<and>
   leadPlayer (snd (playCard exampleState 3 \<lparr>suit = spades, rank = R4\<rparr>)) = 3 \<and>
   hands (snd (playCard exampleState 3 \<lparr>suit = spades, rank = R4\<rparr>))
     = [[\<lparr>suit = hearts, rank = R3\<rparr>, \<lparr>suit = hearts, rank = R4\<rparr>, \<lparr>suit = clubs, rank = RJ\<rparr>],
        [\<lparr>suit = hearts, rank = R5\<rparr>, \<lparr>suit = hearts, rank = R6\<rparr>, \<lparr>suit = clubs, rank = R7\<rparr>],
        [\<lparr>suit = hearts, rank = R7\<rparr>, \<lparr>suit = hearts, rank = RJ\<rparr>, \<lparr>suit = clubs, rank = R6\<rparr>],
        [\<lparr>suit = hearts, rank = RQ\<rparr>, \<lparr>suit = hearts, rank = RK\<rparr>, \<lparr>suit = clubs, rank = RA\<rparr>],
        [\<lparr>suit = hearts, rank = RA\<rparr>, \<lparr>suit = spades, rank = RA\<rparr>, \<lparr>suit = clubs, rank = RK\<rparr>],
        [\<lparr>suit = spades, rank = RK\<rparr>, \<lparr>suit = spades, rank = RQ\<rparr>, \<lparr>suit = clubs, rank = RQ\<rparr>]] \<and>
   deck (snd (playCard exampleState 3 \<lparr>suit = spades, rank = R4\<rparr>)) = [\<lparr>suit = spades, rank = R3\<rparr>]"
proof -
  let ?c = "\<lparr>suit = spades, rank = R4\<rparr>"
  let ?hs = "(hands exampleState)[3 := remove1 ?c (hands exampleState ! 3)]"
  have t3: "turnPlayer exampleState = 3" and l5: "length (trickOf exampleState) = 5"
    by (simp_all add: exampleState_def turnPlayer_def trickOf_def)
  have hyp: "3 = turnPlayer exampleState \<and> length (hands exampleState) = 6 \<and>
      ?c \<in> set (hands exampleState ! 3) \<and> length (trickOf exampleState) = 5"
    using t3 l5 by (simp add: exampleState_def)
  have rv: "resolveTrick (trickOf exampleState @ [\<lparr>player = 3, played = ?c\<rparr>]) (trump exampleState)
      = Inr \<lparr>winner = Some 3, points = 20, tie = False\<rparr>"
    by (simp add: exampleState_def trickOf_def resolveTrick_def maxIndices_def trickPoints_def
        cardWeight_def rankStrengthIn_def RANK_ORDER_def)
  have ne: "deck exampleState \<noteq> []" by (simp add: exampleState_def)
  from playCard_completes_trick [of 3 exampleState ?c] hyp rv ne
  obtain s' where pc: "playCard exampleState 3 ?c = (None, s')"
    and ct: "currentTrick s' = Some []"
    and sc1: "teamScore (teamOfPlayer 3) (scores s')
                = teamScore (teamOfPlayer 3) (scores exampleState) + (20 + tiePoints exampleState)"
    and sc0: "teamScore (1 - teamOfPlayer 3) (scores s')
                = teamScore (1 - teamOfPlayer 3) (scores exampleState)"
    and tp: "tiePoints s' = 0"
    and lp: "leadPlayer s' = nextLead (leadPlayer exampleState) (Some 3)"
    and l6: "length (hands s') = 6"
    and got: "\<forall>k<6. hands s' ! (drawOrder 3 ! k)
                = ?hs ! (drawOrder 3 ! k) @ drawnBy (drawOrder 3) ?hs (deck exampleState) k"
    and dk: "deck s' = drop (sum_list (map (missing ?hs) (drawOrder 3))) (deck exampleState)"
    by auto
  from sc1 have "snd (scores s') = 32"
    by (simp add: teamScore_def teamOfPlayer_def exampleState_def)
  moreover from sc0 have "fst (scores s') = 10"
    by (simp add: teamScore_def teamOfPlayer_def exampleState_def)
  ultimately have sc: "scores s' = (10, 32)" by (simp add: prod_eq_iff)
  from lp have ld: "leadPlayer s' = 3"
    by (simp add: nextLead_def teamOfPlayer_def exampleState_def)
  have ord: "drawOrder 3 = [3, 4, 5, 0, 1, 2]" by (simp add: drawOrder_def upt_conv_Cons)
  from got have each:
    "hands s' ! 0 = [\<lparr>suit = hearts, rank = R3\<rparr>, \<lparr>suit = hearts, rank = R4\<rparr>, \<lparr>suit = clubs, rank = RJ\<rparr>]"
    "hands s' ! 1 = [\<lparr>suit = hearts, rank = R5\<rparr>, \<lparr>suit = hearts, rank = R6\<rparr>, \<lparr>suit = clubs, rank = R7\<rparr>]"
    "hands s' ! 2 = [\<lparr>suit = hearts, rank = R7\<rparr>, \<lparr>suit = hearts, rank = RJ\<rparr>, \<lparr>suit = clubs, rank = R6\<rparr>]"
    "hands s' ! 3 = [\<lparr>suit = hearts, rank = RQ\<rparr>, \<lparr>suit = hearts, rank = RK\<rparr>, \<lparr>suit = clubs, rank = RA\<rparr>]"
    "hands s' ! 4 = [\<lparr>suit = hearts, rank = RA\<rparr>, \<lparr>suit = spades, rank = RA\<rparr>, \<lparr>suit = clubs, rank = RK\<rparr>]"
    "hands s' ! 5 = [\<lparr>suit = spades, rank = RK\<rparr>, \<lparr>suit = spades, rank = RQ\<rparr>, \<lparr>suit = clubs, rank = RQ\<rparr>]"
    unfolding ord by (simp_all add: all_less_six drawnBy_def missing_def exampleState_def)
  have "hands s' = [hands s' ! 0, hands s' ! 1, hands s' ! 2, hands s' ! 3, hands s' ! 4, hands s' ! 5]"
    using l6 by (intro nth_equalityI) (auto simp: less_Suc_eq numeral_eq_Suc)
  with each have hs: "hands s'
     = [[\<lparr>suit = hearts, rank = R3\<rparr>, \<lparr>suit = hearts, rank = R4\<rparr>, \<lparr>suit = clubs, rank = RJ\<rparr>],
        [\<lparr>suit = hearts, rank = R5\<rparr>, \<lparr>suit = hearts, rank = R6\<rparr>, \<lparr>suit = clubs, rank = R7\<rparr>],
        [\<lparr>suit = hearts, rank = R7\<rparr>, \<lparr>suit = hearts, rank = RJ\<rparr>, \<lparr>suit = clubs, rank = R6\<rparr>],
        [\<lparr>suit = hearts, rank = RQ\<rparr>, \<lparr>suit = hearts, rank = RK\<rparr>, \<lparr>suit = clubs, rank = RA\<rparr>],
        [\<lparr>suit = hearts, rank = RA\<rparr>, \<lparr>suit = spades, rank = RA\<rparr>, \<lparr>suit = clubs, rank = RK\<rparr>],
        [\<lparr>suit = spades, rank = RK\<rparr>, \<lparr>suit = spades, rank = RQ\<rparr>, \<lparr>suit = clubs, rank = RQ\<rparr>]]"
    by simp
  from dk have dv: "deck s' = [\<lparr>suit = spades, rank = R3\<rparr>]"
    unfolding ord by (simp add: missing_def exampleState_def)
  from t3 l5 pc ct sc tp ld hs dv show ?thesis by simp
qed

subsection \<open>Shuffling and dealing\<close>

lemma rngNext_range: "0 \<le> fst (rngNext st) \<and> fst (rngNext st) < 1"
proof -
  let ?v = "(1664525 * st + 1013904223) mod 4294967296"
  have "0 \<le> ?v" and "?v < 4294967296" by simp_all
  then have "(0::rat) \<le> of_int ?v" and "(of_int ?v :: rat) < of_int 4294967296"
    by (simp_all only: of_int_0_le_iff of_int_less_iff)
  then show ?thesis by (simp add: rngNext_def Let_def)
qed

lemma floor_scaled_less:
  fixes x :: rat
  assumes "0 \<le> x" and "x < 1" and "0 < n"
  shows "nat \<lfloor>x * of_nat n\<rfloor> < n"
proof -
  have "x * of_nat n < 1 * of_nat n" using assms by (intro mult_strict_right_mono) auto
  then have "x * of_nat n < of_int (int n)" by simp
  then have "\<lfloor>x * of_nat n\<rfloor> < int n" by (simp only: floor_less_iff)
  moreover have "0 \<le> \<lfloor>x * of_nat n\<rfloor>" using assms by simp
  ultimately show ?thesis by linarith
qed

lemma swapAt_length: "length (swapAt i j xs) = length xs"
  by (simp add: swapAt_def)

lemma swapAt_mset: "i < length xs \<Longrightarrow> j < length xs \<Longrightarrow> mset (swapAt i j xs) = mset xs"
  using mset_swap [of j xs i] by (simp add: swapAt_def)

lemma fisherYates_perm:
  "i < length d \<Longrightarrow> length (fisherYates i st d) = length d \<and> mset (fisherYates i st d) = mset d"
proof (induction i arbitrary: st d)
  case 0
  show ?case by simp
next
  case (Suc i)
  obtain x st' where r: "rngNext st = (x, st')" by (cases "rngNext st")
  then have x: "0 \<le> x" "x < 1" using rngNext_range [of st] by auto
  let ?j = "nat \<lfloor>x * of_nat (Suc i + 1)\<rfloor>"
  have "?j < Suc i + 1" using x by (intro floor_scaled_less) auto
  with Suc.prems have j: "?j < length d" by simp
  have l: "i < length (swapAt (Suc i) ?j d)" using Suc.prems by (simp add: swapAt_length)
  from Suc.IH [OF l, of st'] swapAt_mset [OF Suc.prems j] r
  show ?case by (simp add: swapAt_length)
qed

lemma length_freshDeck: "length freshDeck = 36"
  by (simp add: freshDeck_def)

lemma length_createShuffledDeck: "length (createShuffledDeck st) = 36"
  using fisherYates_perm [of 35 freshDeck st]
  by (simp add: createShuffledDeck_def length_freshDeck)

lemma mset_createShuffledDeck: "mset (createShuffledDeck st) = mset freshDeck"
  using fisherYates_perm [of 35 freshDeck st]
  by (simp add: createShuffledDeck_def length_freshDeck)

lemma first18:
  assumes "18 \<le> length d"
  shows "d = d ! 0 # d ! 1 # d ! 2 # d ! 3 # d ! 4 # d ! 5 # d ! 6 # d ! 7 # d ! 8 # d ! 9
           # d ! 10 # d ! 11 # d ! 12 # d ! 13 # d ! 14 # d ! 15 # d ! 16 # d ! 17 # drop 18 d"
proof -
  have "take 18 d = map ((!) d) [0..<18]"
    by (rule nth_equalityI) (use assms in auto)
  then have "take 18 d = [d ! 0, d ! 1, d ! 2, d ! 3, d ! 4, d ! 5, d ! 6, d ! 7, d ! 8, d ! 9,
           d ! 10, d ! 11, d ! 12, d ! 13, d ! 14, d ! 15, d ! 16, d ! 17]"
    by (simp add: upt_conv_Cons eval_nat_numeral)
  then show ?thesis using append_take_drop_id [of 18 d] by simp
qed

lemma dealCards_explicit:
  "dealCards dealOrder (replicate 6 [])
     (c0 # c1 # c2 # c3 # c4 # c5 # c6 # c7 # c8 # c9 # c10 # c11 # c12 # c13 # c14 # c15
        # c16 # c17 # rest)
   = ([[c0, c6, c12], [c1, c7, c13], [c2, c8, c14], [c3, c9, c15], [c4, c10, c16],
       [c5, c11, c17]], rest)"
  by (simp add: dealOrder_def upt_conv_Cons numeral_eq_Suc)

lemma dealCards_shuffled:
  assumes "18 \<le> length d"
  shows "dealCards dealOrder (replicate 6 []) d
   = ([[d ! 0, d ! 6, d ! 12], [d ! 1, d ! 7, d ! 13], [d ! 2, d ! 8, d ! 14],
       [d ! 3, d ! 9, d ! 15], [d ! 4, d ! 10, d ! 16], [d ! 5, d ! 11, d ! 17]], drop 18 d)"
  by (subst first18 [OF assms]) (rule dealCards_explicit)

lemma initMatch_explicit:
  assumes "d = createShuffledDeck (createRng (stringToSeed sd))"
  shows "initMatch sd =
      \<lparr>seed = sd, deck = drop 19 d @ [d ! 18], trump = suit (d ! 18), leadPlayer = 0,
       hands = [[d ! 0, d ! 6, d ! 12], [d ! 1, d ! 7, d ! 13], [d ! 2, d ! 8, d ! 14],
                [d ! 3, d ! 9, d ! 15], [d ! 4, d ! 10, d ! 16], [d ! 5, d ! 11, d ! 17]],
       scores = (0, 0), tiePoints = 0, punishment = newPunishmentQueue, log_entries = [],
       trumpCard = d ! 18, currentTrick = None\<rparr>"
proof -
  have len: "length d = 36" using assms by (simp add: length_createShuffledDeck)
  then have l18: "18 \<le> length d" by simp
  have h: "hd (drop 18 d) = d ! 18" using len by (simp add: hd_drop_conv_nth)
  have "tl (drop 18 d) = drop (Suc 18) d" by (simp only: tl_drop drop_Suc)
  then have t: "tl (drop 18 d) = drop 19 d" by simp
  show ?thesis
    unfolding initMatch_def assms [symmetric] Let_def dealCards_shuffled [OF l18]
    by (simp add: h t)
qed

text \<open>
  Claim C7. For every seed string, with \<open>d\<close> the shuffled deck of 36 cards built from
  the seed: \<open>initMatch\<close> deals \<open>d[0..17]\<close> round by round, one card to each of players
  0 to 5 per round, so that player \<open>p\<close> holds \<open>d[p], d[p+6], d[p+12]\<close>; the trump is the
  suit of the 19th card \<open>d[18]\<close>, which is recorded as the trump card and moved to the
  bottom of the pile (the pile is \<open>d[19..35]\<close> followed by \<open>d[18]\<close>, 18 cards, the trump
  card last); the lead is player 0, the scores are (0, 0), the tie-points 0, the log is
  empty and no trick is in progress.
\<close>

theorem initMatch_deal:
  "(let d = createShuffledDeck (createRng (stringToSeed sd))
    in length d = 36 \<and>
       initMatch sd =
         \<lparr>seed = sd, deck = drop 19 d @ [d ! 18], trump = suit (d ! 18), leadPlayer = 0,
          hands = [[d ! 0, d ! 6, d ! 12], [d ! 1, d ! 7, d ! 13], [d ! 2, d ! 8, d ! 14],
                   [d ! 3, d ! 9, d ! 15], [d ! 4, d ! 10, d ! 16], [d ! 5, d ! 11, d ! 17]],
          scores = (0, 0), tiePoints = 0, punishment = newPunishmentQueue, log_entries = [],
          trumpCard = d ! 18, currentTrick = None\<rparr> \<and>
       length (deck (initMatch sd)) = 18 \<and>
       last (deck (initMatch sd)) = trumpCard (initMatch sd))"
  using initMatch_explicit [OF refl, of sd]
  by (simp add: Let_def length_createShuffledDeck)

subsection \<open>Termination of playHand\<close>

lemma playHandFuel_enough: "cardsTotal s \<le> n \<Longrightarrow> playHandFuel n s = Some (playHand s)"
proof (induction n arbitrary: s)
  case 0
  then have "cardsRemaining s = 0" by (simp add: cardsTotal_def)
  then show ?case by (simp add: playHand.simps [of s])
next
  case (Suc n)
  show ?case
  proof (cases "cardsRemaining s > 0")
    case False
    then show ?thesis by (simp add: playHand.simps [of s])
  next
    case True
    show ?thesis
    proof (cases "playTrick s")
      case (Inl e)
      with True show ?thesis by (simp add: playHand.simps [of s])
    next
      case (Inr s')
      from playTrick_decreases [OF Inr] Suc.prems have "cardsTotal s' \<le> n" by simp
      from Suc.IH [OF this] True Inr show ?thesis by (simp add: playHand.simps [of s])
    qed
  qed
qed


lemma playHand_empties: "playHand s = Inr t \<Longrightarrow> cardsRemaining t = 0"
proof (induction s rule: playHand.induct)
  case (1 s)
  show ?case
  proof (cases "cardsRemaining s > 0")
    case False
    with "1.prems" show ?thesis by (simp add: playHand.simps [of s])
  next
    case True
    with "1.prems" obtain s' where st: "playTrick s = Inr s'" and "playHand s' = Inr t"
      by (auto simp: playHand.simps [of s] split: sum.splits)
    with "1.IH" [OF True st] show ?thesis by simp
  qed
qed


lemma collectPlays_keeps_plays:
  "collectPlays is ld hs plays lg = Inr (hs', plays', lg') \<Longrightarrow> plays \<noteq> [] \<Longrightarrow> plays' \<noteq> []"
proof (induction "is" arbitrary: hs plays lg)
  case Nil
  then show ?case by simp
next
  case (Cons i rest)
  let ?p = "(ld + i) mod 6"
  from Cons.prems have pl: "?p < length hs" by (auto simp: Let_def split: if_splits)
  show ?case
  proof (cases "hs ! ?p")
    case Nil
    with Cons.prems pl have "collectPlays rest ld hs plays lg = Inr (hs', plays', lg')"
      by (simp add: Let_def)
    from Cons.IH [OF this Cons.prems(2)] show ?thesis .
  next
    case (Cons c hand')
    with Cons.prems pl have
      "collectPlays rest ld (hs[?p := hand']) (plays @ [\<lparr>player = ?p, played = c\<rparr>])
         (lg @ [playLogEntry ?p c]) = Inr (hs', plays', lg')"
      by (simp add: Let_def)
    from Cons.IH [OF this] show ?thesis by simp
  qed
qed


lemma collectPlays_takes_one:
  "collectPlays is ld hs plays lg = Inr (hs', plays', lg') \<Longrightarrow>
   \<exists>i \<in> set is. hs ! ((ld + i) mod 6) \<noteq> [] \<Longrightarrow> plays' \<noteq> []"
proof (induction "is" arbitrary: hs plays lg)
  case Nil
  then show ?case by simp
next
  case (Cons i rest)
  let ?p = "(ld + i) mod 6"
  from Cons.prems have pl: "?p < length hs" by (auto simp: Let_def split: if_splits)
  show ?case
  proof (cases "hs ! ?p")
    case Nil
    with Cons.prems pl have run: "collectPlays rest ld hs plays lg = Inr (hs', plays', lg')"
      by (simp add: Let_def)
    from Cons.prems(2) Nil have "\<exists>j \<in> set rest. hs ! ((ld + j) mod 6) \<noteq> []" by auto
    from Cons.IH [OF run this] show ?thesis .
  next
    case (Cons c hand')
    with Cons.prems pl have
      "collectPlays rest ld (hs[?p := hand']) (plays @ [\<lparr>player = ?p, played = c\<rparr>])
         (lg @ [playLogEntry ?p c]) = Inr (hs', plays', lg')"
      by (simp add: Let_def)
    from collectPlays_keeps_plays [OF this] show ?thesis by simp
  qed
qed


lemma collectPlays_total:
  "6 \<le> length hs \<Longrightarrow> \<exists>hs' plays' lg'. collectPlays is ld hs plays lg = Inr (hs', plays', lg') \<and>
      length hs' = length hs"
proof (induction "is" arbitrary: hs plays lg)
  case Nil
  then show ?case by simp
next
  case (Cons i rest)
  let ?p = "(ld + i) mod 6"
  have "?p < 6" by simp
  with Cons.prems have pl: "?p < length hs" by linarith
  show ?case
  proof (cases "hs ! ?p")
    case Nil
    with pl Cons.IH [OF Cons.prems, of plays lg] show ?thesis by (simp add: Let_def)
  next
    case (Cons c hand')
    have "6 \<le> length (hs[?p := hand'])" using Cons.prems by simp
    from Cons.IH [OF this, of "plays @ [\<lparr>player = ?p, played = c\<rparr>]" "lg @ [playLogEntry ?p c]"]
      pl Cons
    show ?thesis by (simp add: Let_def)
  qed
qed


lemma drawOrder_set: "set (drawOrder w) = {0, 1, 2, 3, 4, 5}"
proof -
  have "w mod 6 < 6" by simp
  then consider "w mod 6 = 0" | "w mod 6 = 1" | "w mod 6 = 2" | "w mod 6 = 3" | "w mod 6 = 4" | "w mod 6 = 5"
    by linarith
  then show ?thesis
    by cases (auto simp: drawOrder_def upt_conv_Cons mod_add_left_eq [of w 6, symmetric])
qed


lemma some_offset_reaches:
  assumes "p < 6"
  shows "\<exists>i \<in> set [0..<6]. (ld + i) mod 6 = p"
proof -
  from assms have "p \<in> {0, 1, 2, 3, 4, 5}" by auto
  then have "p \<in> set (drawOrder ld)" by (simp only: drawOrder_set)
  then show ?thesis by (auto simp: drawOrder_def)
qed


lemma some_hand_nonempty:
  "0 < sum_list (map length hs) \<Longrightarrow> \<exists>h \<in> set hs. h \<noteq> []"
  by (induction hs) auto


lemma collectPlays_six:
  assumes len: "length (hands s) = 6" and rem: "0 < cardsRemaining s"
  shows "\<exists>hs (plays :: TrickPlay list) lg.
           collectPlays [0..<6] (leadPlayer s) (hands s) [] (log_entries s) = Inr (hs, plays, lg) \<and>
           plays \<noteq> [] \<and> length hs = 6 \<and>
           sum_list (map length hs) + length plays = cardsRemaining s"
proof -
  from len have "6 \<le> length (hands s)" by simp
  from collectPlays_total [OF this, of "[0..<6]" "leadPlayer s" "[]" "log_entries s"]
  obtain hs plays lg where
    cp: "collectPlays [0..<6] (leadPlayer s) (hands s) [] (log_entries s) = Inr (hs, plays, lg)"
    and l: "length hs = 6" using len by auto
  from rem have "\<exists>h \<in> set (hands s). h \<noteq> []"
    by (simp add: cardsRemaining_sum some_hand_nonempty)
  then obtain p where p: "p < 6" "hands s ! p \<noteq> []"
    using len by (auto simp: in_set_conv_nth)
  from some_offset_reaches [OF p(1), of "leadPlayer s"] p(2)
  have "\<exists>i \<in> set [0..<6]. hands s ! ((leadPlayer s + i) mod 6) \<noteq> []" by auto
  from collectPlays_takes_one [OF cp this] have ne: "plays \<noteq> []" .
  from collectPlays_cards [OF cp]
  have "size (mset (concat hs) + mset (map played plays)) = size (mset (concat (hands s)))" by simp
  then have tot: "sum_list (map length hs) + length plays = cardsRemaining s"
    by (simp add: cardsRemaining_sum length_concat)
  show ?thesis
    by (intro exI [of _ hs] exI [of _ plays] exI [of _ lg] conjI) (fact cp ne l tot)+
qed


lemma drawLoop_pile: "drawLoop w os hs d = (e, hs', d') \<Longrightarrow> length d' \<le> length d"
proof (induction os arbitrary: hs d)
  case Nil
  then show ?case by simp
next
  case (Cons a os)
  let ?p = "(w + a) mod 6"
  show ?case
  proof (cases "?p < length hs")
    case False
    with Cons.prems show ?thesis by (simp add: Let_def)
  next
    case True
    with Cons.prems have "drawLoop w os (hs[?p := hs ! ?p @ take (3 - length (hs ! ?p)) d])
        (drop (3 - length (hs ! ?p)) d) = (e, hs', d')"
      by (simp add: Let_def drawUpTo3_eq)
    from Cons.IH [OF this] show ?thesis by simp
  qed
qed


text \<open>
  Claim C10. \<open>playHand\<close> terminates on every state. The number of cards in the hands
  plus the draw pile strictly decreases across every iteration of the loop that
  completes; with six hands of which one is non-empty, the iteration takes at least one
  card from the hands, and the cards taken are exactly the plays of the trick; draw
  replenishment leaves the total unchanged and never grows the pile. Hence as many
  iterations as there are cards in hands and pile always suffice for the loop to end
  (\<open>playHandFuel\<close> with that much fuel returns, and returns what \<open>playHand\<close> returns),
  and when \<open>playHand\<close> returns a state all hands are empty.
\<close>

theorem playHand_terminates:
  "cardsTotal s = cardsRemaining s + length (deck s) \<and>
   (playTrick s = Inr s' \<longrightarrow> cardsTotal s' < cardsTotal s) \<and>
   (length (hands s) = 6 \<and> 0 < cardsRemaining s \<longrightarrow>
      (\<exists>hs (plays :: TrickPlay list) lg.
         collectPlays [0..<6] (leadPlayer s) (hands s) [] (log_entries s) = Inr (hs, plays, lg) \<and>
         plays \<noteq> [] \<and> sum_list (map length hs) + length plays = cardsRemaining s)) \<and>
   (drawAfterTrick s w = (e, s'') \<longrightarrow>
      cardsTotal s'' = cardsTotal s \<and> length (deck s'') \<le> length (deck s)) \<and>
   playHandFuel (cardsTotal s) s = Some (playHand s) \<and>
   (playHand s = Inr t \<longrightarrow> cardsRemaining t = 0)"
proof (intro conjI impI)
  show "cardsTotal s = cardsRemaining s + length (deck s)" by (simp add: cardsTotal_def)
next
  assume "playTrick s = Inr s'"
  then show "cardsTotal s' < cardsTotal s" by (rule playTrick_decreases)
next
  assume "length (hands s) = 6 \<and> 0 < cardsRemaining s"
  then have "length (hands s) = 6" and "0 < cardsRemaining s" by simp_all
  from collectPlays_six [OF this] obtain hs and plays :: "TrickPlay list" and lg where
    a: "collectPlays [0..<6] (leadPlayer s) (hands s) [] (log_entries s) = Inr (hs, plays, lg)"
    and b: "plays \<noteq> []" and c: "sum_list (map length hs) + length plays = cardsRemaining s"
    by auto
  show "\<exists>hs (plays :: TrickPlay list) lg.
         collectPlays [0..<6] (leadPlayer s) (hands s) [] (log_entries s) = Inr (hs, plays, lg) \<and>
         plays \<noteq> [] \<and> sum_list (map length hs) + length plays = cardsRemaining s"
    by (intro exI [of _ hs] exI [of _ plays] exI [of _ lg] conjI) (fact a b c)+
next
  assume "drawAfterTrick s w = (e, s'')"
  then show "cardsTotal s'' = cardsTotal s"
    by (simp add: cardsTotal_size drawAfterTrick_cards)
next
  assume "drawAfterTrick s w = (e, s'')"
  then show "length (deck s'') \<le> length (deck s)"
    by (auto simp: drawAfterTrick_def Let_def split: prod.splits dest: drawLoop_pile)
next
  show "playHandFuel (cardsTotal s) s = Some (playHand s)"
    by (rule playHandFuel_enough) simp
next
  assume "playHand s = Inr t"
  then show "cardsRemaining t = 0" by (rule playHand_empties)
qed

theorem playHand_terminates_witness:
  "length (hands exampleAfterPlay) = 6 \<and> 0 < cardsRemaining exampleAfterPlay \<and>
   cardsTotal exampleAfterPlay = 19 \<and>
   \<not> isl (playTrick exampleAfterPlay) \<and>
   cardsTotal (projr (playTrick exampleAfterPlay)) < 19 \<and>
   playHandFuel 19 exampleAfterPlay = Some (playHand exampleAfterPlay) \<and>
   \<not> isl (playHand exampleAfterPlay) \<and>
   cardsRemaining (projr (playHand exampleAfterPlay)) = 0 \<and>
   cardsTotal (snd (drawAfterTrick exampleAfterPlay 3)) = 19 \<and>
   length (deck (snd (drawAfterTrick exampleAfterPlay 3))) \<le> length (deck exampleAfterPlay)"
proof -
  have a: "length (hands exampleAfterPlay) = 6 \<and> 0 < cardsRemaining exampleAfterPlay"
    and t: "cardsTotal exampleAfterPlay = 19"
    by code_simp+
  have r1: "\<not> isl (playTrick exampleAfterPlay)" by code_simp
  then have e1: "playTrick exampleAfterPlay = Inr (projr (playTrick exampleAfterPlay))" by simp
  have r2: "\<not> isl (playHand exampleAfterPlay)" by code_simp
  then have e2: "playHand exampleAfterPlay = Inr (projr (playHand exampleAfterPlay))" by simp
  have e3: "drawAfterTrick exampleAfterPlay 3
      = (fst (drawAfterTrick exampleAfterPlay 3), snd (drawAfterTrick exampleAfterPlay 3))"
    by simp
  from playHand_terminates
    [of exampleAfterPlay "projr (playTrick exampleAfterPlay)" 3
       "fst (drawAfterTrick exampleAfterPlay 3)" "snd (drawAfterTrick exampleAfterPlay 3)"
       "projr (playHand exampleAfterPlay)"] e1 e2 e3 a t r1 r2
  show ?thesis by simp
qed

subsection \<open>Conservation of points over a full hand\<close>

lemma rankStrength_cases:
  "rankStrengthIn RANK_ORDER r = (case r of RA \<Rightarrow> 8 | R7 \<Rightarrow> 7 | RK \<Rightarrow> 6 | RQ \<Rightarrow> 5 | RJ \<Rightarrow> 4
      | R6 \<Rightarrow> 3 | R5 \<Rightarrow> 2 | R4 \<Rightarrow> 1 | R3 \<Rightarrow> 0)"
  by (cases r) (simp_all add: rankStrengthIn_def RANK_ORDER_def)

lemma rankStrength_range: "0 \<le> rankStrengthIn RANK_ORDER r \<and> rankStrengthIn RANK_ORDER r \<le> 8"
  by (cases r) (simp_all add: rankStrength_cases)

lemma rankStrength_inj:
  "rankStrengthIn RANK_ORDER r1 = rankStrengthIn RANK_ORDER r2 \<Longrightarrow> r1 = r2"
  by (cases r1; cases r2) (simp_all add: rankStrength_cases)

lemma specWeight_inj:
  assumes eq: "specWeight t l c1 = specWeight t l c2" and big: "100 \<le> specWeight t l c1"
  shows "c1 = c2"
proof -
  have r1: "0 \<le> rankStrengthIn RANK_ORDER (rank c1) \<and> rankStrengthIn RANK_ORDER (rank c1) \<le> 8"
    and r2: "0 \<le> rankStrengthIn RANK_ORDER (rank c2) \<and> rankStrengthIn RANK_ORDER (rank c2) \<le> 8"
    by (rule rankStrength_range)+
  from eq big r1 r2 have "suit c1 = suit c2 \<and>
      rankStrengthIn RANK_ORDER (rank c1) = rankStrengthIn RANK_ORDER (rank c2)"
    by (auto simp: specWeight_def split: if_splits)
  then have "suit c1 = suit c2" and "rank c1 = rank c2"
    by (auto dest: rankStrength_inj)
  then show ?thesis by simp
qed

lemma specWeight_led: "100 \<le> specWeight t (suit c) c"
  using rankStrength_range [of "rank c"] by (simp add: specWeight_def)

lemma two_in_filter:
  assumes "1 < length (filter P xs)" and "distinct xs"
  shows "\<exists>a b. a \<noteq> b \<and> a \<in> set xs \<and> b \<in> set xs \<and> P a \<and> P b"
proof -
  from assms(1) obtain a b rest where f: "filter P xs = a # b # rest"
    by (cases "filter P xs"; cases "tl (filter P xs)") auto
  from assms(2) have "distinct (filter P xs)" by simp
  with f have "a \<noteq> b" by simp
  moreover have "a \<in> set (filter P xs)" "b \<in> set (filter P xs)" using f by simp_all
  ultimately show ?thesis by auto
qed

lemma no_tie_distinct:
  fixes plays :: "TrickPlay list"
  assumes ne: "plays \<noteq> []" and dist: "distinct (map played plays)"
  shows "length (attainingMax plays t) \<le> 1"
proof (rule ccontr)
  assume "\<not> length (attainingMax plays t) \<le> 1"
  then have more: "1 < length (attainingMax plays t)" by simp
  let ?led = "suit (played (hd plays))"
  let ?ws = "map (\<lambda>p. specWeight t ?led (played p)) plays"
  from more have "1 < length (filter (\<lambda>i. ?ws ! i = Max (set ?ws)) [0..<length plays])"
    by (simp add: attainingMax_def)
  from two_in_filter [OF this] obtain i j where
    ij: "i \<noteq> j" "i < length plays" "j < length plays"
    and wi: "?ws ! i = Max (set ?ws)" and wj: "?ws ! j = Max (set ?ws)"
    by auto
  have "?ws ! 0 \<in> set ?ws" using ne by (intro nth_mem) simp
  then have "?ws ! 0 \<le> Max (set ?ws)" by (intro Max_ge) auto
  moreover have "?ws ! 0 = specWeight t ?led (played (hd plays))"
    using ne by (cases plays) auto
  ultimately have "100 \<le> Max (set ?ws)" using specWeight_led [of t "played (hd plays)"] by simp
  with wi wj ij have "specWeight t ?led (played (plays ! i)) = specWeight t ?led (played (plays ! j))"
    and "100 \<le> specWeight t ?led (played (plays ! i))" by simp_all
  then have "played (plays ! i) = played (plays ! j)" by (rule specWeight_inj)
  then have same: "map played plays ! i = map played plays ! j" using ij by simp
  from dist have "\<forall>i < length (map played plays). \<forall>j < length (map played plays).
      i \<noteq> j \<longrightarrow> map played plays ! i \<noteq> map played plays ! j"
    by (simp only: distinct_conv_nth)
  with ij have "map played plays ! i \<noteq> map played plays ! j" by simp
  with same show False by contradiction
qed

lemma resolveTrick_distinct:
  fixes plays :: "TrickPlay list"
  assumes ne: "plays \<noteq> []" and dist: "distinct (map played plays)"
  shows "\<exists>w. resolveTrick plays t = Inr \<lparr>winner = Some w, points = trickPoints plays, tie = False\<rparr>"
  using no_tie_distinct [OF ne dist, of t] by (simp add: resolveTrick_indices [OF ne])

lemma distinct_of_counts: "(\<forall>x. count (mset xs) x \<le> 1) \<Longrightarrow> distinct xs"
proof (induction xs)
  case Nil
  show ?case by simp
next
  case (Cons a xs)
  from Cons.prems have "count (mset (a # xs)) a \<le> 1" by blast
  then have c0: "count (mset xs) a = 0" by simp
  then have notin: "a \<notin> set xs" by (simp add: count_eq_zero_iff)
  have "count (mset xs) x \<le> 1" for x
  proof (cases "x = a")
    case True
    from c0 show ?thesis unfolding True by linarith
  next
    case False
    from Cons.prems have "count (mset (a # xs)) x \<le> 1" by blast
    with False show ?thesis by simp
  qed
  with Cons.IH notin show ?case by simp
qed

lemma pointsOf_union: "pointsOf (A + B) = pointsOf A + pointsOf B"
  by (simp add: pointsOf_def)

lemma pointsOf_plays: "pointsOf (mset (map played plays)) = trickPoints plays"
proof -
  have "sum_mset (image_mset (\<lambda>c. POINTS (rank c)) (mset (map played plays)))
      = sum_list (map (\<lambda>c. POINTS (rank c)) (map played plays))"
    by (simp only: mset_map [symmetric] sum_mset_sum_list)
  then show ?thesis by (simp add: pointsOf_def trickPoints_sum o_def)
qed

lemma addScore_sum: "fst (addScore team n sc) + snd (addScore team n sc) = fst sc + snd sc + n"
  by (simp add: addScore_def)

lemma hand_nonempty_sum:
  "q < length hs \<Longrightarrow> hs ! q \<noteq> [] \<Longrightarrow> 0 < sum_list (map length hs)"
proof -
  assume q: "q < length hs" and ne: "hs ! q \<noteq> []"
  have "hs ! q \<in> set hs" using q by simp
  then have "length (hs ! q) \<in> set (map length hs)" by simp
  then have "length (hs ! q) \<le> sum_list (map length hs)" by (intro member_le_sum_list) auto
  with ne show ?thesis by (cases "hs ! q") auto
qed

lemma playTrick_inv:
  assumes inv: "handInv s" and rem: "0 < cardsRemaining s"
  shows "\<exists>s'. playTrick s = Inr s' \<and> handInv s' \<and> pointsInPlay s' = pointsInPlay s"
proof -
  from inv have len: "length (hands s) = 6" and cnt: "\<And>c. count (cardsOf s) c \<le> 1"
    by (simp_all add: handInv_def)
  from collectPlays_six [OF len rem] obtain hs and plays :: "TrickPlay list" and lg where
    cp: "collectPlays [0..<6] (leadPlayer s) (hands s) [] (log_entries s) = Inr (hs, plays, lg)"
    and ne: "plays \<noteq> []" and l6: "length hs = 6"
    by auto
  let ?s1 = "s\<lparr>hands := hs, log_entries := lg\<rparr>"
  from collectPlays_cards [OF cp]
  have split: "cardsOf ?s1 + mset (map played plays) = cardsOf s"
    by (simp add: cardsOf_def ac_simps)
  have cnt1: "count (cardsOf ?s1) c \<le> 1" for c
  proof -
    have "count (cardsOf ?s1) c \<le> count (cardsOf ?s1 + mset (map played plays)) c" by simp
    also have "\<dots> \<le> 1" unfolding split by (rule cnt)
    finally show ?thesis .
  qed
  have "count (mset (map played plays)) c \<le> 1" for c
  proof -
    have "count (mset (map played plays)) c \<le> count (cardsOf ?s1 + mset (map played plays)) c"
      by simp
    also have "\<dots> \<le> 1" unfolding split by (rule cnt)
    finally show ?thesis .
  qed
  then have dist: "distinct (map played plays)" by (intro distinct_of_counts) blast
  from resolveTrick_distinct [OF ne dist, of "trump s"] obtain w where
    rt: "resolveTrick plays (trump s)
           = Inr \<lparr>winner = Some w, points = trickPoints plays, tie = False\<rparr>"
    by blast
  let ?r = "\<lparr>winner = Some w, points = trickPoints plays, tie = False\<rparr>"
  let ?s3 = "?s1\<lparr>scores := addScore (teamOfPlayer w) (trickPoints plays + tiePoints s) (scores s),
                   tiePoints := 0, leadPlayer := nextLead (leadPlayer s) (Some w)\<rparr>"
  have st: "settleTrick ?s1 ?r = (if deck s \<noteq> [] then drawAfterTrick ?s3 w else (None, ?s3))"
    using settleTrick_win [of ?r w ?s1] by (simp add: Let_def)
  have c3: "cardsOf ?s3 = cardsOf ?s1" by (simp add: cardsOf_def)
  have p3: "pointsInPlay ?s3 = pointsInPlay s"
  proof -
    have "pointsOf (cardsOf s) = pointsOf (cardsOf ?s1) + trickPoints plays"
      unfolding split [symmetric] pointsOf_union pointsOf_plays by simp
    then show ?thesis
      by (simp add: pointsInPlay_def c3 addScore_sum)
  qed
  show ?thesis
  proof (cases "deck s = []")
    case True
    with st have "settleTrick ?s1 ?r = (None, ?s3)" by simp
    with cp rt have pt: "playTrick s = Inr ?s3" by (simp add: playTrick_def Let_def)
    have "handInv ?s3" using l6 cnt1 True by (simp add: handInv_def c3)
    with pt p3 show ?thesis by blast
  next
    case False
    have l3: "length (hands ?s3) = 6" using l6 by simp
    from drawAfterTrick_spec [OF l3, of w] obtain hs' d' where
      run: "drawAfterTrick ?s3 w = (None, ?s3\<lparr>hands := hs', deck := d'\<rparr>)" and
      l6': "length hs' = 6" and
      got: "\<forall>k<6. hs' ! (drawOrder w ! k)
              = hands ?s3 ! (drawOrder w ! k) @ drawnBy (drawOrder w) (hands ?s3) (deck ?s3) k"
      by blast
    let ?s4 = "?s3\<lparr>hands := hs', deck := d'\<rparr>"
    from st False run have "settleTrick ?s1 ?r = (None, ?s4)" by simp
    with cp rt have pt: "playTrick s = Inr ?s4" by (simp add: playTrick_def Let_def)
    from drawAfterTrick_cards [OF run] have c4: "cardsOf ?s4 = cardsOf ?s3" .
    have p4: "pointsInPlay ?s4 = pointsInPlay s"
      using p3 c4 by (simp add: pointsInPlay_def)
    let ?q = "drawOrder w ! 0"
    have q6: "?q < 6" by (rule drawOrder_less) simp
    from got have "hs' ! ?q = hs ! ?q @ drawnBy (drawOrder w) hs (deck s) 0" by simp
    moreover have "hs ! ?q @ drawnBy (drawOrder w) hs (deck s) 0 \<noteq> []"
      using False by (cases "hs ! ?q") (auto simp: drawnBy_def missing_def)
    ultimately have "hs' ! ?q \<noteq> []" by simp
    with q6 l6' have "0 < sum_list (map length hs')" by (intro hand_nonempty_sum [of ?q]) auto
    then have "0 < cardsRemaining ?s4" by (simp add: cardsRemaining_sum)
    then have "handInv ?s4" using l6' cnt1 c4 c3 by (simp add: handInv_def)
    with pt p4 show ?thesis by blast
  qed
qed

lemma playHand_inv:
  "handInv s \<Longrightarrow>
   \<exists>t. playHand s = Inr t \<and> handInv t \<and> cardsRemaining t = 0 \<and> pointsInPlay t = pointsInPlay s"
proof (induction s rule: playHand.induct)
  case (1 s)
  show ?case
  proof (cases "cardsRemaining s > 0")
    case False
    with "1.prems" show ?thesis by (simp add: playHand.simps [of s])
  next
    case True
    from playTrick_inv [OF "1.prems" True] obtain s' where
      st: "playTrick s = Inr s'" and inv': "handInv s'" and p: "pointsInPlay s' = pointsInPlay s"
      by blast
    from "1.IH" [OF True st inv'] obtain t where
      "playHand s' = Inr t" "handInv t" "cardsRemaining t = 0" "pointsInPlay t = pointsInPlay s'"
      by blast
    with True st p show ?thesis by (simp add: playHand.simps [of s])
  qed
qed

lemma finished_no_cards:
  assumes "handInv t" and "cardsRemaining t = 0"
  shows "cardsOf t = {#}"
proof -
  from assms have d: "deck t = []" by (simp add: handInv_def)
  from assms(2) have "sum_list (map length (hands t)) = 0" by (simp add: cardsRemaining_sum)
  then have "\<forall>h \<in> set (hands t). h = []" by auto
  then have "concat (hands t) = []" by simp
  with d show ?thesis by (simp add: cardsOf_def)
qed

lemma distinct_freshDeck: "distinct freshDeck"
  by (simp add: freshDeck_def)

lemma points_freshDeck: "sum_list (map (\<lambda>c. POINTS (rank c)) freshDeck) = 120"
  by (simp add: freshDeck_def)

lemma pointsOf_mset: "pointsOf (mset xs) = sum_list (map (\<lambda>c. POINTS (rank c)) xs)"
proof -
  have "sum_mset (image_mset (\<lambda>c. POINTS (rank c)) (mset xs))
      = sum_list (map (\<lambda>c. POINTS (rank c)) xs)"
    by (simp only: mset_map [symmetric] sum_mset_sum_list)
  then show ?thesis by (simp add: pointsOf_def)
qed

lemma cardsOf_initMatch: "cardsOf (initMatch sd) = mset freshDeck"
proof -
  define d where "d = createShuffledDeck (createRng (stringToSeed sd))"
  have len: "length d = 36" by (simp add: d_def length_createShuffledDeck)
  then have l18: "18 \<le> length d" and l: "18 < length d" by simp_all
  have "mset d = mset (d ! 0 # d ! 1 # d ! 2 # d ! 3 # d ! 4 # d ! 5 # d ! 6 # d ! 7 # d ! 8 # d ! 9
           # d ! 10 # d ! 11 # d ! 12 # d ! 13 # d ! 14 # d ! 15 # d ! 16 # d ! 17 # drop 18 d)"
    using first18 [OF l18] by simp
  moreover have "drop 18 d = d ! 18 # drop 19 d"
    using Cons_nth_drop_Suc [OF l, symmetric] by simp
  ultimately have "mset d = mset (d ! 0 # d ! 1 # d ! 2 # d ! 3 # d ! 4 # d ! 5 # d ! 6 # d ! 7
           # d ! 8 # d ! 9 # d ! 10 # d ! 11 # d ! 12 # d ! 13 # d ! 14 # d ! 15 # d ! 16
           # d ! 17 # d ! 18 # drop 19 d)"
    by simp
  moreover have "cardsOf (initMatch sd)
      = mset [d ! 0, d ! 6, d ! 12, d ! 1, d ! 7, d ! 13, d ! 2, d ! 8, d ! 14,
              d ! 3, d ! 9, d ! 15, d ! 4, d ! 10, d ! 16, d ! 5, d ! 11, d ! 17]
        + mset (drop 19 d @ [d ! 18])"
    by (simp add: cardsOf_def initMatch_explicit [OF d_def])
  ultimately have "cardsOf (initMatch sd) = mset d" by (simp add: ac_simps)
  then show ?thesis by (simp add: d_def mset_createShuffledDeck)
qed

lemma handInv_initMatch: "handInv (initMatch sd)"
proof -
  have "length (hands (initMatch sd)) = 6" and "cardsRemaining (initMatch sd) = 18"
    by (simp_all add: initMatch_explicit [OF refl] cardsRemaining_sum)
  moreover have "count (cardsOf (initMatch sd)) c \<le> 1" for c
    using distinct_freshDeck by (simp add: cardsOf_initMatch distinct_count_atmost_1)
  ultimately show ?thesis by (simp add: handInv_def)
qed

lemma playHand_initMatch:
  "\<exists>t. playHand (initMatch sd) = Inr t \<and>
       fst (scores t) + snd (scores t) + tiePoints t = 120 \<and>
       cardsRemaining t = 0 \<and> deck t = []"
proof -
  from playHand_inv [OF handInv_initMatch, of sd] obtain t where
    run: "playHand (initMatch sd) = Inr t" and inv: "handInv t" and
    z: "cardsRemaining t = 0" and p: "pointsInPlay t = pointsInPlay (initMatch sd)"
    by blast
  have "scores (initMatch sd) = (0, 0)" and "tiePoints (initMatch sd) = 0"
    by (simp_all add: initMatch_explicit [OF refl])
  then have "pointsInPlay (initMatch sd) = 120"
    unfolding pointsInPlay_def cardsOf_initMatch pointsOf_mset points_freshDeck by simp
  moreover have "pointsInPlay t = fst (scores t) + snd (scores t) + tiePoints t"
    using finished_no_cards [OF inv z] by (simp add: pointsInPlay_def pointsOf_def)
  ultimately have "fst (scores t) + snd (scores t) + tiePoints t = 120" using p by simp
  moreover from inv z have "deck t = []" by (simp add: handInv_def)
  ultimately show ?thesis using run z by blast
qed

lemma handTotal_120: "handTotal sd = Some 120"
  using playHand_initMatch [of sd] by (auto simp: handTotal_def)

text \<open>
  Claim C3, as amended. The 36-card deck is worth 120 points (A 11, 7 10, K 4, J 3, Q 2,
  four of each). For every seed string, \<open>playHand (initMatch seed)\<close> returns a state, in
  which all hands and the draw pile are empty, and the sum of team A's score, team B's
  score and the residual tie-points is 120, the point value of the deck.
\<close>

theorem playHand_conserves_points:
  "deckPoints = 120 \<and> handTotal sd = Some deckPoints \<and>
   (\<exists>t. playHand (initMatch sd) = Inr t \<and>
        fst (scores t) + snd (scores t) + tiePoints t = 120 \<and>
        cardsRemaining t = 0 \<and> deck t = [])"
  using playHand_initMatch [of sd] handTotal_120 [of sd]
  by (simp add: deckPoints_def points_freshDeck)

text \<open>
  The claim as stated gives 116 for the deck and for the final sum. For the seed "demo-0"
  (code units 100, 101, 109, 111, 45, 48) the final sum is 120.
\<close>

theorem playHand_total_counterexample:
  "deckPoints \<noteq> 116 \<and>
   handTotal [100, 101, 109, 111, 45, 48] = Some 120 \<and>
   handTotal [100, 101, 109, 111, 45, 48] \<noteq> Some 116"
  using handTotal_120 [of "[100, 101, 109, 111, 45, 48]"]
  by (simp add: deckPoints_def points_freshDeck)

end
